theory Spec2Isabelle
  imports Main "HOL-Library.Word" "HOL-Library.Code_Target_Numeral"
begin

unbundle bit_operations_syntax

section \<open>Data model of \<^verbatim>\<open>simple_printf_v7.c\<close>\<close>

text \<open>
  The embedding follows the most complete variant of the engine. Machine types are those
  of an LP64 platform: \<^verbatim>\<open>int\<close> is 32 bits, \<^verbatim>\<open>short\<close> 16 bits, and
  \<^verbatim>\<open>long\<close>, \<^verbatim>\<open>long long\<close>, \<^verbatim>\<open>intmax_t\<close>, \<^verbatim>\<open>size_t\<close>,
  \<^verbatim>\<open>ptrdiff_t\<close> and pointers 64 bits. Signed arithmetic wraps in two's complement,
  and a conversion to a narrower type keeps the low bits. The sink's total and capacity
  and every length handed to the sink are of type \<^verbatim>\<open>size_t\<close>, a 64-bit word whose
  arithmetic wraps; a difference of pointers that is converted to \<^verbatim>\<open>size_t\<close> wraps
  modulo \<open>2 ^ 64\<close> as well.

  Undefined behaviour of the C program is a value of the model: every function that can
  read or write outside an object, or fetch an argument that is absent or of another
  type, returns \<open>Inl\<close> of an \<open>error\<close>.
\<close>

datatype error =
    ReadPastEnd       \<comment> \<open>a read outside the object that holds a string\<close>
  | BufferOverrun     \<comment> \<open>a write outside the caller's buffer\<close>
  | ScratchOverrun    \<comment> \<open>an access outside the scratch buffer of an integer conversion\<close>
  | NoArgument        \<comment> \<open>\<^verbatim>\<open>va_arg\<close> on an exhausted argument list\<close>
  | BadArgument       \<comment> \<open>\<^verbatim>\<open>va_arg\<close> with a type the next argument does not have\<close>
  | BadBase           \<comment> \<open>digit conversion in a radix below two or above the digit table\<close>

definition bindE :: "error + 'a \<Rightarrow> ('a \<Rightarrow> error + 'b) \<Rightarrow> error + 'b" where
  "bindE m f = (case m of Inl e \<Rightarrow> Inl e | Inr x \<Rightarrow> f x)"

lemma bindE_Inl [simp]: "bindE (Inl e) f = Inl e"
  by (simp add: bindE_def)

lemma bindE_Inr [simp]: "bindE (Inr x) f = f x"
  by (simp add: bindE_def)

lemma bindE_Inr_iff:
  "bindE m f = Inr y \<longleftrightarrow> (\<exists>x. m = Inr x \<and> f x = Inr y)"
  by (cases m) simp_all

definition NUL :: char where
  "NUL = CHR 0x00"

definition cstr :: "string \<Rightarrow> string" where
  \<comment> \<open>the array that holds a C string: its characters, then the terminator\<close>
  "cstr s = s @ [NUL]"

text \<open>Operand sizes and sign display, the two enumerations of the source.\<close>

datatype length_mod =
    kLengthChar | kLengthShort | kLengthDefault | kLengthLong | kLengthLongLong
  | kLengthIntMaxT | kLengthSizeT | kLengthPtrDiffT | kLengthVoidP

datatype sign_mode = kSignDefault | kSignAlways | kSignSpace

text \<open>
  \<^verbatim>\<open>struct printer\<close>. The union of a stream and a buffer pointer is the pair of fields
  \<open>file_p\<close> (what has been written to the stream) and \<open>buf_p\<close> (the caller's array); the
  three function pointers are the field \<open>ops_p\<close>, which names the set that was installed.
\<close>

datatype sink_ops = FileOps | BufOps

record printer =
  file_p :: string
  buf_p :: string
  max_p :: "64 word"
  total_p :: "64 word"
  ops_p :: sink_ops

text \<open>\<^verbatim>\<open>struct conv\<close>, without its two pointers: the argument list and the printer are
  passed beside it.\<close>

record conv =
  leading_zero :: bool
  left_justify :: bool
  is_alt :: bool
  sign :: sign_mode
  length_mod :: length_mod
  explicit_width :: bool
  explicit_prec :: bool
  width :: "16 word"
  prec :: "16 word"
  soft_prec :: bool
  is_caps :: bool
  is_signed :: bool
  base :: "8 word"
  type :: char

text \<open>
  The variable arguments, after the default promotions. \<open>AInt\<close> is an \<^verbatim>\<open>int\<close> or
  \<^verbatim>\<open>unsigned\<close>, \<open>ALong\<close> any of the 64-bit integer types, \<open>APtr\<close> a \<^verbatim>\<open>void *\<close>,
  \<open>AStr\<close> a pointer to the array given, and \<open>ARef m a\<close> a pointer to the integer object \<open>a\<close>
  of the type that the length modifier \<open>m\<close> selects for \<^verbatim>\<open>%n\<close>.
\<close>

datatype arg =
    AInt "32 word"
  | ALong "64 word"
  | APtr "64 word"
  | AStr string
  | ARef length_mod nat

text \<open>What a call works on: the rest of the argument list, the sink, and the values
  that \<^verbatim>\<open>%n\<close> has stored through its pointer arguments, latest first.\<close>

record ctx =
  args :: "arg list"
  printer :: printer
  stored :: "(nat \<times> int) list"

section \<open>Output sink\<close>

definition store_bytes :: "string \<Rightarrow> nat \<Rightarrow> string \<Rightarrow> error + string" where
  \<comment> \<open>\<^verbatim>\<open>memcpy\<close> or \<^verbatim>\<open>memset\<close> of \<open>bs\<close> to offset \<open>off\<close> of the array \<open>b\<close>\<close>
  "store_bytes b off bs =
     (if off + length bs \<le> length b
      then Inr (take off b @ bs @ drop (off + length bs) b)
      else Inl BufferOverrun)"

definition printer_file_copy :: "printer \<Rightarrow> string \<Rightarrow> printer" where
  "printer_file_copy p s =
     p\<lparr>total_p := total_p p + word_of_nat (length s), file_p := file_p p @ s\<rparr>"

function file_fill_loop :: "string \<Rightarrow> char \<Rightarrow> 64 word \<Rightarrow> string \<times> 64 word" where
  "file_fill_loop out c len =
     (if len \<ge> 32 then file_fill_loop (out @ replicate 32 c) c (len - 32)
      else (out, len))"
  by pat_completeness auto
termination
proof (relation "measure (\<lambda>(out, c, len). unat len)")
  show "wf (measure (\<lambda>(out, c, len). unat len))" by simp
next
  fix out :: string and c :: char and len :: "64 word"
  assume "32 \<le> len"
  then have "unat (len - 32) < unat len"
    by (simp add: unat_sub word_le_nat_alt)
  then show "((out @ replicate 32 c, c, len - 32), (out, c, len))
             \<in> measure (\<lambda>(out, c, len). unat len)"
    by simp
qed

declare file_fill_loop.simps [simp del]

definition printer_file_fill :: "printer \<Rightarrow> char \<Rightarrow> 64 word \<Rightarrow> printer" where
  "printer_file_fill p c len =
     (let p = p\<lparr>total_p := total_p p + len\<rparr>;
          (out, len) = file_fill_loop (file_p p) c len
      in if len > 0 then p\<lparr>file_p := out @ replicate (unat len) c\<rparr> else p\<lparr>file_p := out\<rparr>)"

definition printer_file_putc :: "printer \<Rightarrow> char \<Rightarrow> printer" where
  "printer_file_putc p c = p\<lparr>total_p := total_p p + 1, file_p := file_p p @ [c]\<rparr>"

definition printer_buf_copy :: "printer \<Rightarrow> string \<Rightarrow> error + printer" where
  "printer_buf_copy p s =
     (let len = word_of_nat (length s) :: 64 word in
      if total_p p \<ge> max_p p then Inr (p\<lparr>total_p := total_p p + len\<rparr>)
      else
        let avail = max_p p - total_p p;
            target = total_p p;
            p = p\<lparr>total_p := total_p p + len\<rparr>;
            len = (if len > avail then avail else len)
        in bindE (store_bytes (buf_p p) (unat target) (take (unat len) s))
             (\<lambda>b. Inr (p\<lparr>buf_p := b\<rparr>)))"

definition printer_buf_fill :: "printer \<Rightarrow> char \<Rightarrow> 64 word \<Rightarrow> error + printer" where
  "printer_buf_fill p c len =
     (if total_p p \<ge> max_p p then Inr (p\<lparr>total_p := total_p p + len\<rparr>)
      else
        let avail = max_p p - total_p p;
            target = total_p p;
            p = p\<lparr>total_p := total_p p + len\<rparr>;
            len = (if len > avail then avail else len)
        in bindE (store_bytes (buf_p p) (unat target) (replicate (unat len) c))
             (\<lambda>b. Inr (p\<lparr>buf_p := b\<rparr>)))"

definition printer_buf_putc :: "printer \<Rightarrow> char \<Rightarrow> error + printer" where
  "printer_buf_putc p c =
     (if total_p p \<ge> max_p p then Inr (p\<lparr>total_p := total_p p + 1\<rparr>)
      else bindE (store_bytes (buf_p p) (unat (total_p p)) [c])
             (\<lambda>b. Inr (p\<lparr>buf_p := b, total_p := total_p p + 1\<rparr>)))"

text \<open>The calls through the function pointers \<^verbatim>\<open>p->copy\<close>, \<^verbatim>\<open>p->fill\<close> and
  \<^verbatim>\<open>p->putc\<close>. The text handed to \<open>copy\<close> is the \<open>length\<close> bytes at the pointer, and
  its length is the \<^verbatim>\<open>size_t\<close> argument.\<close>

definition copy :: "printer \<Rightarrow> string \<Rightarrow> error + printer" where
  "copy p s = (case ops_p p of FileOps \<Rightarrow> Inr (printer_file_copy p s)
                           | BufOps \<Rightarrow> printer_buf_copy p s)"

definition fill :: "printer \<Rightarrow> char \<Rightarrow> 64 word \<Rightarrow> error + printer" where
  "fill p c len = (case ops_p p of FileOps \<Rightarrow> Inr (printer_file_fill p c len)
                               | BufOps \<Rightarrow> printer_buf_fill p c len)"

definition putc :: "printer \<Rightarrow> char \<Rightarrow> error + printer" where
  "putc p c = (case ops_p p of FileOps \<Rightarrow> Inr (printer_file_putc p c)
                           | BufOps \<Rightarrow> printer_buf_putc p c)"

section \<open>Argument fetcher\<close>

text \<open>\<^verbatim>\<open>va_arg\<close> at each of the types the engine asks for.\<close>

definition va_arg_int :: "arg list \<Rightarrow> error + (32 word \<times> arg list)" where
  "va_arg_int as = (case as of [] \<Rightarrow> Inl NoArgument
                    | AInt v # r \<Rightarrow> Inr (v, r)
                    | _ # r \<Rightarrow> Inl BadArgument)"

definition va_arg_long :: "arg list \<Rightarrow> error + (64 word \<times> arg list)" where
  "va_arg_long as = (case as of [] \<Rightarrow> Inl NoArgument
                     | ALong v # r \<Rightarrow> Inr (v, r)
                     | _ # r \<Rightarrow> Inl BadArgument)"

definition va_arg_ptr :: "arg list \<Rightarrow> error + (64 word \<times> arg list)" where
  "va_arg_ptr as = (case as of [] \<Rightarrow> Inl NoArgument
                    | APtr v # r \<Rightarrow> Inr (v, r)
                    | _ # r \<Rightarrow> Inl BadArgument)"

definition va_arg_str :: "arg list \<Rightarrow> error + (string \<times> arg list)" where
  "va_arg_str as = (case as of [] \<Rightarrow> Inl NoArgument
                    | AStr v # r \<Rightarrow> Inr (v, r)
                    | _ # r \<Rightarrow> Inl BadArgument)"

definition va_arg_ref :: "length_mod \<Rightarrow> arg list \<Rightarrow> error + (nat \<times> arg list)" where
  "va_arg_ref m as = (case as of [] \<Rightarrow> Inl NoArgument
                      | ARef m' a # r \<Rightarrow> if m' = m then Inr (a, r) else Inl BadArgument
                      | _ # r \<Rightarrow> Inl BadArgument)"

definition get_signed_integer :: "conv \<Rightarrow> arg list \<Rightarrow> error + (64 word \<times> arg list)" where
  "get_signed_integer conv as =
     (case length_mod conv of
        kLengthChar \<Rightarrow> bindE (va_arg_int as) (\<lambda>(v, r). Inr (scast (ucast v :: 8 word), r))
      | kLengthShort \<Rightarrow> bindE (va_arg_int as) (\<lambda>(v, r). Inr (scast (ucast v :: 16 word), r))
      | kLengthDefault \<Rightarrow> bindE (va_arg_int as) (\<lambda>(v, r). Inr (scast v, r))
      | kLengthLong \<Rightarrow> va_arg_long as
      | kLengthLongLong \<Rightarrow> va_arg_long as
      | kLengthIntMaxT \<Rightarrow> va_arg_long as
      | kLengthSizeT \<Rightarrow> va_arg_long as
      | kLengthPtrDiffT \<Rightarrow> va_arg_long as
      | kLengthVoidP \<Rightarrow> va_arg_ptr as)"

definition get_unsigned_integer :: "conv \<Rightarrow> arg list \<Rightarrow> error + (64 word \<times> arg list)" where
  "get_unsigned_integer conv as =
     (case length_mod conv of
        kLengthChar \<Rightarrow> bindE (va_arg_int as) (\<lambda>(v, r). Inr (ucast (ucast v :: 8 word), r))
      | kLengthShort \<Rightarrow> bindE (va_arg_int as) (\<lambda>(v, r). Inr (ucast (ucast v :: 16 word), r))
      | kLengthDefault \<Rightarrow> bindE (va_arg_int as) (\<lambda>(v, r). Inr (ucast v, r))
      | kLengthLong \<Rightarrow> va_arg_long as
      | kLengthLongLong \<Rightarrow> va_arg_long as
      | kLengthIntMaxT \<Rightarrow> va_arg_long as
      | kLengthSizeT \<Rightarrow> va_arg_long as
      | kLengthPtrDiffT \<Rightarrow> va_arg_long as
      | kLengthVoidP \<Rightarrow> va_arg_ptr as)"

section \<open>Integer renderer\<close>

definition INT_BUF_SIZE :: int where
  "INT_BUF_SIZE = 48"

definition SIGN_BIT :: "64 word" where
  "SIGN_BIT = - 1 - (- 1) div 2"

definition hex_digits :: "bool \<Rightarrow> string" where
  "hex_digits caps = (if caps then ''0123456789ABCDEF'' else ''0123456789abcdef'') @ [NUL]"

text \<open>The scratch buffer is an array with its index: \<^verbatim>\<open>buf[--idx] = c\<close> and the read
  \<^verbatim>\<open>buf[idx]\<close>, each failing outside the array.\<close>

definition put_back :: "char \<Rightarrow> int \<times> string \<Rightarrow> error + (int \<times> string)" where
  "put_back c st =
     (let idx = fst st - 1; b = snd st in
      if 0 \<le> idx \<and> idx < int (length b) then Inr (idx, b[nat idx := c])
      else Inl ScratchOverrun)"

definition peek :: "int \<times> string \<Rightarrow> error + char" where
  "peek st =
     (let idx = fst st; b = snd st in
      if 0 \<le> idx \<and> idx < int (length b) then Inr (b ! nat idx)
      else Inl ScratchOverrun)"

text \<open>
  The digit loop \<^verbatim>\<open>do { buf[--idx] = hd[value % base]; value /= base; } while (value > 0)\<close>.
  In radix 0 the C loop divides by zero and in radix 1 it does not end; a digit of a radix
  above 17 lies outside the table. All three are the error \<open>BadBase\<close>; the integer
  conversions only ask for radix 8, 10 and 16.
\<close>

function convert_digits ::
  "string \<Rightarrow> 64 word \<Rightarrow> 64 word \<Rightarrow> int \<times> string \<Rightarrow> error + (int \<times> string)" where
  "convert_digits hds b v st =
     (if b < 2 \<or> 17 < b then Inl BadBase
      else case put_back (hds ! unat (v mod b)) st of
             Inl e \<Rightarrow> Inl e
           | Inr st' \<Rightarrow> if v div b > 0 then convert_digits hds b (v div b) st' else Inr st')"
  by pat_completeness auto
termination
proof (relation "measure (\<lambda>(hds, b, v, st). unat v)")
  show "wf (measure (\<lambda>(hds, b, v, st). unat v))" by simp
next
  fix hds :: string and b v :: "64 word" and st x2 :: "int \<times> string"
  assume b: "\<not> (b < 2 \<or> 17 < b)" and pos: "0 < v div b"
  from b have b2: "2 \<le> unat b"
    by (simp add: word_less_nat_alt not_less)
  from pos have "0 < unat (v div b)"
    by (simp add: word_less_nat_alt)
  then have q: "0 < unat v div unat b"
    by (simp add: unat_div)
  then have "0 < unat v"
    by (cases "unat v = 0") simp_all
  with b2 have "unat v div unat b < unat v"
    by simp
  then show "((hds, b, v div b, x2), (hds, b, v, st)) \<in> measure (\<lambda>(hds, b, v, st). unat v)"
    by (simp add: unat_div)
qed

declare convert_digits.simps [simp del]

text \<open>The loop \<^verbatim>\<open>while (idx >= prec_idx) { buf[--idx] = '0'; }\<close>.\<close>

function pad_zeros :: "int \<Rightarrow> int \<times> string \<Rightarrow> error + (int \<times> string)" where
  "pad_zeros prec_idx st =
     (if fst st \<ge> prec_idx
      then case put_back CHR ''0'' st of
             Inl e \<Rightarrow> Inl e
           | Inr st' \<Rightarrow> pad_zeros prec_idx st'
      else Inr st)"
  by pat_completeness auto
termination
  by (relation "measure (\<lambda>(prec_idx, st). nat (fst st - prec_idx + 1))")
     (auto simp: put_back_def Let_def split: if_splits)

declare pad_zeros.simps [simp del]

text \<open>Sign resolution: the sign character (\<open>NUL\<close> for none) and the magnitude.\<close>

definition resolve_sign :: "conv \<Rightarrow> 64 word \<Rightarrow> char \<times> 64 word" where
  "resolve_sign conv v =
     (if is_signed conv then
        (if v AND SIGN_BIT \<noteq> 0 then (CHR ''-'', - v)
         else if sign conv = kSignAlways then (CHR ''+'', v)
         else if sign conv = kSignSpace then (CHR '' '', v)
         else (NUL, v))
      else (NUL, v))"

text \<open>The block under \<^verbatim>\<open>if (conv->soft_prec)\<close>: a precision that came from the width
  gives way to the radix prefix and the sign. \<^verbatim>\<open>conv->prec\<close> is a \<^verbatim>\<open>short\<close>.\<close>

definition adjust_soft_prec :: "conv \<Rightarrow> char \<Rightarrow> int \<times> string \<Rightarrow> error + conv" where
  "adjust_soft_prec conv sign_char st =
     (if soft_prec conv then
        let conv = (if is_alt conv \<and> base conv = 16 then conv\<lparr>prec := prec conv - 2\<rparr> else conv)
        in bindE (if is_alt conv \<and> base conv = 8
                  then bindE (peek st) (\<lambda>lead.
                         Inr (if lead \<noteq> CHR ''0'' then conv\<lparr>prec := prec conv - 1\<rparr> else conv))
                  else Inr conv) (\<lambda>conv.
           let conv = (if sign_char \<noteq> NUL then conv\<lparr>prec := prec conv - 1\<rparr> else conv)
           in Inr (if sint (prec conv) < 1 then conv\<lparr>prec := 1\<rparr> else conv))
      else Inr conv)"

text \<open>The index down to which zeros are written, bounded by the buffer.\<close>

definition compute_prec_idx :: "conv \<Rightarrow> char \<Rightarrow> int" where
  "compute_prec_idx conv sign_char =
     (let prec_idx = (if sint (prec conv) < INT_BUF_SIZE - 1
                      then INT_BUF_SIZE - sint (prec conv) else 1);
          prec_idx = (if prec_idx < 3 \<and> is_alt conv \<and> base conv = 16 then 3 else prec_idx);
          prec_idx = (if prec_idx < 2 \<and> is_alt conv \<and> base conv = 8 then 2 else prec_idx);
          prec_idx = (if prec_idx < 2 \<and> sign_char \<noteq> NUL then 2 else prec_idx)
      in prec_idx)"

definition alt_octal_prefix :: "conv \<Rightarrow> int \<times> string \<Rightarrow> error + (int \<times> string)" where
  "alt_octal_prefix conv st =
     (if is_alt conv \<and> base conv = 8
      then bindE (peek st) (\<lambda>lead. if lead \<noteq> CHR ''0'' then put_back CHR ''0'' st else Inr st)
      else Inr st)"

definition alt_hex_prefix :: "conv \<Rightarrow> int \<times> string \<Rightarrow> error + (int \<times> string)" where
  "alt_hex_prefix conv st =
     (if is_alt conv \<and> base conv = 16
      then bindE (put_back (if is_caps conv then CHR ''X'' else CHR ''x'') st) (put_back CHR ''0'')
      else Inr st)"

text \<open>
  \<^verbatim>\<open>convert_integer_to_string\<close> writes the text at the end of \<open>buf\<close> and returns the index
  of its first character. It also updates \<^verbatim>\<open>conv->prec\<close>, so the descriptor is returned
  beside the index and the buffer.
\<close>

definition convert_integer_to_string ::
  "64 word \<Rightarrow> conv \<Rightarrow> string \<Rightarrow> error + (int \<times> conv \<times> string)" where
  "convert_integer_to_string v conv b =
     bindE (put_back NUL (INT_BUF_SIZE, b)) (\<lambda>st.
       if v = 0 \<and> prec conv = 0 \<and> \<not> (is_alt conv \<and> base conv = 8)
       then Inr (INT_BUF_SIZE - 1, conv, snd st)
       else
         let (sign_char, v) = resolve_sign conv v in
         bindE (convert_digits (hex_digits (is_caps conv)) (ucast (base conv)) v st) (\<lambda>st.
         bindE (adjust_soft_prec conv sign_char st) (\<lambda>conv.
         bindE (pad_zeros (compute_prec_idx conv sign_char) st) (\<lambda>st.
         bindE (alt_octal_prefix conv st) (\<lambda>st.
         bindE (alt_hex_prefix conv st) (\<lambda>st.
         bindE (if sign_char \<noteq> NUL then put_back sign_char st else Inr st) (\<lambda>st.
         Inr (fst st, conv, snd st))))))))"

section \<open>Field formatter and conversion handlers\<close>

definition print_converted_string :: "conv \<Rightarrow> string \<Rightarrow> ctx \<Rightarrow> error + (bool \<times> ctx)" where
  "print_converted_string conv str c =
     (let str_len = int (length str);
          fill_count = (if sint (width conv) > str_len then sint (width conv) - str_len else 0);
          p = printer c
      in bindE (if \<not> left_justify conv \<and> fill_count \<noteq> 0
                then fill p CHR '' '' (word_of_int fill_count) else Inr p) (\<lambda>p.
         bindE (copy p str) (\<lambda>p.
         bindE (if left_justify conv \<and> fill_count \<noteq> 0
                then fill p CHR '' '' (word_of_int fill_count) else Inr p) (\<lambda>p.
         Inr (True, c\<lparr>printer := p\<rparr>)))))"

definition print_char_conversion :: "conv \<Rightarrow> ctx \<Rightarrow> error + (bool \<times> ctx)" where
  "print_char_conversion conv c =
     (if length_mod conv \<noteq> kLengthDefault then Inr (False, c)
      else bindE (va_arg_int (args c)) (\<lambda>(v, as).
             print_converted_string conv [char_of (unat v)] (c\<lparr>args := as\<rparr>)))"

text \<open>\<^verbatim>\<open>memchr(s + pos, ch, n)\<close> on the array \<open>m\<close>: the index of the first \<open>ch\<close> among
  the \<open>n\<close> bytes from \<open>pos\<close>, read in order; a read outside the array is an error.\<close>

primrec index_of :: "char \<Rightarrow> string \<Rightarrow> nat option" where
  "index_of ch [] = None"
| "index_of ch (x # xs) = (if x = ch then Some 0 else map_option Suc (index_of ch xs))"

definition memchr :: "string \<Rightarrow> nat \<Rightarrow> char \<Rightarrow> nat \<Rightarrow> error + nat option" where
  "memchr m pos ch n =
     (case index_of ch (take n (drop pos m)) of
        Some k \<Rightarrow> Inr (Some (pos + k))
      | None \<Rightarrow> if pos + n \<le> length m then Inr None else Inl ReadPastEnd)"

definition SIZE_MAX :: nat where
  "SIZE_MAX = 2 ^ 64 - 1"

text \<open>\<^verbatim>\<open>str_len\<close> is an \<^verbatim>\<open>int\<close>: the length found keeps its low 32 bits. When that is
  negative, \<^verbatim>\<open>print_converted_string\<close> hands \<open>copy\<close> a \<^verbatim>\<open>size_t\<close> length of at least
  \<open>2 ^ 64 - 2 ^ 31\<close> bytes, more than the string has.\<close>

definition print_string_conversion :: "conv \<Rightarrow> ctx \<Rightarrow> error + (bool \<times> ctx)" where
  "print_string_conversion conv c =
     (if length_mod conv \<noteq> kLengthDefault then Inr (False, c)
      else
        let max_len = (if explicit_prec conv then unat (scast (prec conv) :: 64 word)
                       else SIZE_MAX)
        in bindE (va_arg_str (args c)) (\<lambda>(str, as).
           bindE (memchr str 0 NUL max_len) (\<lambda>endp.
           let str_len = sint (word_of_nat (case endp of Some k \<Rightarrow> k | None \<Rightarrow> max_len)
                                 :: 32 word)
           in if str_len < 0 then Inl ReadPastEnd
              else print_converted_string conv (take (nat str_len) str) (c\<lparr>args := as\<rparr>))))"

text \<open>The first part of \<^verbatim>\<open>print_diouxXp_conversions\<close>: signedness, radix and case from
  the letter, then the default precision or the width as a soft precision.\<close>

definition diouxXp_setup :: "conv \<Rightarrow> conv" where
  "diouxXp_setup conv =
     (let conv = conv\<lparr>is_signed := False\<rparr>;
          conv = (if type conv = CHR ''d'' then conv\<lparr>is_signed := True\<rparr>
                  else if type conv = CHR ''i'' then conv\<lparr>is_signed := True\<rparr>
                  else if type conv = CHR ''u'' then conv
                  else if type conv = CHR ''o'' then conv\<lparr>base := 8\<rparr>
                  else if type conv = CHR ''x'' then conv\<lparr>base := 16\<rparr>
                  else if type conv = CHR ''X'' then conv\<lparr>base := 16, is_caps := True\<rparr>
                  else if type conv = CHR ''p'' then conv\<lparr>base := 16, is_alt := True\<rparr>
                  else conv)
      in if \<not> explicit_prec conv then
           (if leading_zero conv \<and> explicit_width conv \<and> width conv \<noteq> 0 \<and> \<not> left_justify conv
            then conv\<lparr>prec := width conv, soft_prec := True\<rparr>
            else conv\<lparr>prec := 1\<rparr>)
         else conv)"

definition print_diouxXp_conversions :: "conv \<Rightarrow> ctx \<Rightarrow> error + (bool \<times> ctx)" where
  "print_diouxXp_conversions conv c =
     (let conv = diouxXp_setup conv in
      bindE (if is_signed conv then get_signed_integer conv (args c)
             else get_unsigned_integer conv (args c)) (\<lambda>(v, as).
      bindE (convert_integer_to_string v conv (replicate (nat INT_BUF_SIZE) NUL)) (\<lambda>(idx, conv, b).
      let str_len = INT_BUF_SIZE - idx - 1
      in print_converted_string conv (take (nat str_len) (drop (nat idx) b)) (c\<lparr>args := as\<rparr>))))"

text \<open>\<^verbatim>\<open>%n\<close>: the running total, converted to the pointee's type, is stored through the
  pointer argument. An unknown length (here only \<open>kLengthVoidP\<close>) is taken as \<^verbatim>\<open>int *\<close>.\<close>

definition narrow_count :: "length_mod \<Rightarrow> 64 word \<Rightarrow> int" where
  "narrow_count m t =
     (case m of
        kLengthChar \<Rightarrow> sint (ucast t :: 8 word)
      | kLengthShort \<Rightarrow> sint (ucast t :: 16 word)
      | kLengthDefault \<Rightarrow> sint (ucast t :: 32 word)
      | kLengthSizeT \<Rightarrow> uint t
      | kLengthVoidP \<Rightarrow> sint (ucast t :: 32 word)
      | _ \<Rightarrow> sint t)"

definition store_character_count :: "conv \<Rightarrow> ctx \<Rightarrow> error + (bool \<times> ctx)" where
  "store_character_count conv c =
     (let t = total_p (printer c);
          m = (case length_mod conv of kLengthVoidP \<Rightarrow> kLengthDefault | m \<Rightarrow> m)
      in bindE (va_arg_ref m (args c)) (\<lambda>(a, as).
           Inr (True, c\<lparr>args := as, stored := (a, narrow_count m t) # stored c\<rparr>)))"

definition print_conversion :: "conv \<Rightarrow> ctx \<Rightarrow> error + (bool \<times> ctx)" where
  "print_conversion conv c =
     (if type conv = CHR ''n'' then store_character_count conv c
      else if type conv = CHR ''c'' then print_char_conversion conv c
      else if type conv = CHR ''s'' then print_string_conversion conv c
      else if type conv \<in> {CHR ''d'', CHR ''i'', CHR ''u'', CHR ''o'', CHR ''x'', CHR ''X'', CHR ''p''}
      then print_diouxXp_conversions conv c
      else Inr (False, c))"

section \<open>Conversion parser\<close>

text \<open>A pointer into the format is an index into the array \<open>m\<close> that holds it, terminator
  included; \<open>rd m i\<close> is the read \<^verbatim>\<open>m[i]\<close>.\<close>

definition rd :: "string \<Rightarrow> nat \<Rightarrow> error + char" where
  "rd m i = (if i < length m then Inr (m ! i) else Inl ReadPastEnd)"

definition isdigit :: "char \<Rightarrow> bool" where
  "isdigit ch = (48 \<le> (of_char ch :: nat) \<and> (of_char ch :: nat) \<le> 57)"

function parse_flags_loop :: "string \<Rightarrow> nat \<Rightarrow> conv \<times> bool \<Rightarrow> error + (nat \<times> conv \<times> bool)" where
  "parse_flags_loop m fmt cs =
     (case rd m fmt of
        Inl e \<Rightarrow> Inl e
      | Inr ch \<Rightarrow>
          if ch = CHR ''0'' then parse_flags_loop m (fmt + 1) ((fst cs)\<lparr>leading_zero := True\<rparr>, snd cs)
          else if ch = CHR ''-'' then parse_flags_loop m (fmt + 1) ((fst cs)\<lparr>left_justify := True\<rparr>, snd cs)
          else if ch = CHR ''+'' then parse_flags_loop m (fmt + 1) ((fst cs)\<lparr>sign := kSignAlways\<rparr>, snd cs)
          else if ch = CHR ''#'' then parse_flags_loop m (fmt + 1) ((fst cs)\<lparr>is_alt := True\<rparr>, snd cs)
          else if ch = CHR '' '' then parse_flags_loop m (fmt + 1) (fst cs, True)
          else Inr (fmt, cs))"
  by pat_completeness auto
termination
  by (relation "measure (\<lambda>(m, fmt, cs). length m - fmt)")
     (auto simp: rd_def split: if_splits)

declare parse_flags_loop.simps [simp del]

definition parse_flags :: "string \<Rightarrow> nat \<Rightarrow> conv \<Rightarrow> error + (nat \<times> conv)" where
  "parse_flags m fmt conv =
     bindE (parse_flags_loop m fmt (conv, False)) (\<lambda>(fmt, conv, sign_space).
       Inr (fmt, if sign_space \<and> sign conv = kSignDefault then conv\<lparr>sign := kSignSpace\<rparr> else conv))"

text \<open>The loop \<^verbatim>\<open>while (isdigit(ch)) { n = n * 10 + (ch - '0'); ch = *++fmt; }\<close> of
  \<^verbatim>\<open>parse_width\<close> and \<^verbatim>\<open>parse_prec\<close>, on an \<^verbatim>\<open>int\<close>.\<close>

function parse_digits :: "string \<Rightarrow> nat \<Rightarrow> char \<Rightarrow> 32 word \<Rightarrow> error + (nat \<times> 32 word)" where
  "parse_digits m fmt ch n =
     (if isdigit ch
      then case rd m (fmt + 1) of
             Inl e \<Rightarrow> Inl e
           | Inr ch' \<Rightarrow> parse_digits m (fmt + 1) ch' (n * 10 + (of_char ch - 48))
      else Inr (fmt, n))"
  by pat_completeness auto
termination
  by (relation "measure (\<lambda>(m, fmt, ch, n). length m - fmt)")
     (auto simp: rd_def split: if_splits)

declare parse_digits.simps [simp del]

definition parse_width :: "string \<Rightarrow> nat \<Rightarrow> conv \<Rightarrow> arg list \<Rightarrow> error + (nat \<times> conv \<times> arg list)" where
  "parse_width m fmt conv as =
     bindE (rd m fmt) (\<lambda>ch.
       if ch = CHR ''*'' then
         bindE (va_arg_int as) (\<lambda>(w, as).
           let conv = conv\<lparr>explicit_width := True\<rparr>
           in if sint w < 0
              then Inr (fmt + 1, conv\<lparr>left_justify := True, width := ucast (- w)\<rparr>, as)
              else Inr (fmt + 1, conv\<lparr>width := ucast w\<rparr>, as))
       else
         bindE (parse_digits m fmt ch 0) (\<lambda>(fmt, w).
           Inr (fmt, conv\<lparr>explicit_width := isdigit ch, width := ucast w\<rparr>, as)))"

definition parse_prec :: "string \<Rightarrow> nat \<Rightarrow> conv \<Rightarrow> arg list \<Rightarrow> error + (nat \<times> conv \<times> arg list)" where
  "parse_prec m fmt conv as =
     bindE (rd m fmt) (\<lambda>ch.
       if ch = CHR ''.'' then
         let conv = conv\<lparr>explicit_prec := True\<rparr> in
         bindE (rd m (fmt + 1)) (\<lambda>ch.
           if ch = CHR ''*'' then
             bindE (va_arg_int as) (\<lambda>(pr, as).
               Inr (fmt + 2, conv\<lparr>prec := ucast (if sint pr < 0 then 0 else pr)\<rparr>, as))
           else
             bindE (parse_digits m (fmt + 1) ch 0) (\<lambda>(fmt, pr).
               Inr (fmt, conv\<lparr>prec := ucast pr\<rparr>, as)))
       else Inr (fmt, conv\<lparr>prec := 0\<rparr>, as))"

text \<open>The macro \<^verbatim>\<open>PACK_CHAR_(a, b)\<close>: the byte \<open>a\<close>, with bit 8 set when \<open>a = b\<close>. The
  case labels pass a blank for \<open>b\<close> to say "not doubled".\<close>

definition PACK_CHAR :: "char \<Rightarrow> char \<Rightarrow> nat" where
  "PACK_CHAR a b = (of_char a AND 255) OR push_bit 8 (of_bool (a = b))"

definition parse_length :: "string \<Rightarrow> nat \<Rightarrow> conv \<Rightarrow> error + (nat \<times> conv)" where
  "parse_length m fmt conv =
     bindE (rd m fmt) (\<lambda>ch1.
     bindE (rd m (fmt + 1)) (\<lambda>ch2.
       let k = PACK_CHAR ch1 ch2 in
       if k = PACK_CHAR CHR ''h'' CHR ''h'' then Inr (fmt + 2, conv\<lparr>length_mod := kLengthChar\<rparr>)
       else if k = PACK_CHAR CHR ''h'' CHR '' '' then Inr (fmt + 1, conv\<lparr>length_mod := kLengthShort\<rparr>)
       else if k = PACK_CHAR CHR ''l'' CHR '' '' then Inr (fmt + 1, conv\<lparr>length_mod := kLengthLong\<rparr>)
       else if k = PACK_CHAR CHR ''l'' CHR ''l'' then Inr (fmt + 2, conv\<lparr>length_mod := kLengthLongLong\<rparr>)
       else if k = PACK_CHAR CHR ''j'' CHR '' '' then Inr (fmt + 1, conv\<lparr>length_mod := kLengthIntMaxT\<rparr>)
       else if k = PACK_CHAR CHR ''z'' CHR '' '' then Inr (fmt + 1, conv\<lparr>length_mod := kLengthSizeT\<rparr>)
       else if k = PACK_CHAR CHR ''t'' CHR '' '' then Inr (fmt + 1, conv\<lparr>length_mod := kLengthPtrDiffT\<rparr>)
       else if k = PACK_CHAR CHR ''p'' CHR '' '' then Inr (fmt, conv\<lparr>length_mod := kLengthVoidP\<rparr>)
       else Inr (fmt, conv\<lparr>length_mod := kLengthDefault\<rparr>)))"

section \<open>Dispatcher\<close>

text \<open>A pointer difference converted to \<^verbatim>\<open>size_t\<close>, and the bytes \<open>[pos, pos + n)\<close> of
  the format that a \<open>copy\<close> is asked to write.\<close>

definition size_diff :: "nat \<Rightarrow> nat \<Rightarrow> nat" where
  "size_diff a b = (if b \<le> a then a - b else 2 ^ 64 - (b - a))"

definition slice :: "string \<Rightarrow> nat \<Rightarrow> nat \<Rightarrow> error + string" where
  "slice m pos n = (if pos + n \<le> length m then Inr (take n (drop pos m)) else Inl ReadPastEnd)"

definition strlen :: "string \<Rightarrow> error + nat" where
  "strlen m = (case index_of NUL m of Some k \<Rightarrow> Inr k | None \<Rightarrow> Inl ReadPastEnd)"

definition conv_init :: conv where
  "conv_init = \<lparr>leading_zero = False, left_justify = False, is_alt = False, sign = kSignDefault,
     length_mod = kLengthDefault, explicit_width = False, explicit_prec = False, width = 0,
     prec = 0, soft_prec = False, is_caps = False, is_signed = False, base = 10, type = NUL\<rparr>"

text \<open>The parse of one specifier, as the loop body runs it: the four parsers in turn,
  then \<^verbatim>\<open>conv.type = *curr_fmt++\<close>.\<close>

definition parse_conversion :: "string \<Rightarrow> nat \<Rightarrow> arg list \<Rightarrow> error + (nat \<times> conv \<times> arg list)" where
  "parse_conversion m curr_fmt as =
     bindE (parse_flags m curr_fmt conv_init) (\<lambda>(curr_fmt, conv).
     bindE (parse_width m curr_fmt conv as) (\<lambda>(curr_fmt, conv, as).
     bindE (parse_prec m curr_fmt conv as) (\<lambda>(curr_fmt, conv, as).
     bindE (parse_length m curr_fmt conv) (\<lambda>(curr_fmt, conv).
     bindE (rd m curr_fmt) (\<lambda>ty.
     Inr (curr_fmt + 1, conv\<lparr>type := ty\<rparr>, as))))))"

text \<open>
  The body of the loop of \<^verbatim>\<open>printf_core\<close>, entered with \<open>prev_fmt\<close> and with \<open>curr_fmt\<close>
  at a \<^verbatim>\<open>%\<close>. It returns the pointer after the conversion, which the loop header then
  assigns to \<open>prev_fmt\<close> as well.
\<close>

definition loop_body :: "string \<Rightarrow> nat \<Rightarrow> nat \<Rightarrow> ctx \<Rightarrow> error + (nat \<times> ctx)" where
  "loop_body m prev_fmt curr_fmt c =
     bindE (if prev_fmt \<noteq> curr_fmt
            then bindE (slice m prev_fmt (size_diff curr_fmt prev_fmt)) (copy (printer c))
            else Inr (printer c)) (\<lambda>p.
     let c = c\<lparr>printer := p\<rparr>; conv_fmt = curr_fmt; curr_fmt = curr_fmt + 1 in
     bindE (rd m curr_fmt) (\<lambda>ch.
       if ch = CHR ''%'' then bindE (putc (printer c) CHR ''%'') (\<lambda>p. Inr (curr_fmt + 1, c\<lparr>printer := p\<rparr>))
       else
         bindE (parse_conversion m curr_fmt (args c)) (\<lambda>(curr_fmt, conv, as).
         bindE (print_conversion conv (c\<lparr>args := as\<rparr>)) (\<lambda>(ok, c).
           if \<not> ok
           then bindE (slice m conv_fmt (size_diff curr_fmt conv_fmt)) (\<lambda>s.
                bindE (copy (printer c) s) (\<lambda>p. Inr (curr_fmt, c\<lparr>printer := p\<rparr>)))
           else Inr (curr_fmt, c)))))"

text \<open>Every parser returns a pointer at or after the one it was given, and the loop body
  one that is after the \<^verbatim>\<open>%\<close> and inside the array. The loop of \<^verbatim>\<open>printf_core\<close>
  terminates for that reason.\<close>

lemma parse_flags_loop_advances:
  "parse_flags_loop m fmt cs = Inr (fmt', cs') \<Longrightarrow> fmt \<le> fmt'"
proof (induction "length m - fmt" arbitrary: fmt cs rule: less_induct)
  case less
  from less.prems obtain ch where r: "rd m fmt = Inr ch"
    by (subst (asm) parse_flags_loop.simps) (auto split: sum.splits)
  from less.prems r have
    "(\<exists>cs2. parse_flags_loop m (fmt + 1) cs2 = Inr (fmt', cs')) \<or> fmt' = fmt"
    by (subst (asm) parse_flags_loop.simps) (auto split: if_splits)
  then show ?case
  proof
    assume "\<exists>cs2. parse_flags_loop m (fmt + 1) cs2 = Inr (fmt', cs')"
    then obtain cs2 where rec: "parse_flags_loop m (fmt + 1) cs2 = Inr (fmt', cs')" ..
    from r have "length m - (fmt + 1) < length m - fmt"
      by (auto simp: rd_def split: if_splits)
    from less.hyps [OF this rec] show ?thesis by simp
  next
    assume "fmt' = fmt"
    then show ?thesis by simp
  qed
qed

lemma parse_flags_advances:
  "parse_flags m fmt conv = Inr (fmt', conv') \<Longrightarrow> fmt \<le> fmt'"
  by (auto simp: parse_flags_def bindE_Inr_iff dest: parse_flags_loop_advances)

lemma parse_digits_advances:
  "parse_digits m fmt ch n = Inr (fmt', n') \<Longrightarrow> fmt \<le> fmt'"
proof (induction m fmt ch n rule: parse_digits.induct)
  case (1 m fmt ch n)
  show ?case
  proof (cases "isdigit ch")
    case False
    with "1.prems" show ?thesis
      by (simp add: parse_digits.simps)
  next
    case True
    with "1.prems" obtain ch' where r: "rd m (fmt + 1) = Inr ch'"
      and p: "parse_digits m (fmt + 1) ch' (n * 10 + (of_char ch - 48)) = Inr (fmt', n')"
      by (subst (asm) parse_digits.simps) (auto split: sum.splits)
    from "1.IH" [OF True r p] show ?thesis by simp
  qed
qed

lemma parse_width_advances:
  "parse_width m fmt conv as = Inr (fmt', conv', as') \<Longrightarrow> fmt \<le> fmt'"
  by (auto simp: parse_width_def bindE_Inr_iff Let_def split: if_splits
           dest: parse_digits_advances)

lemma parse_prec_advances:
  "parse_prec m fmt conv as = Inr (fmt', conv', as') \<Longrightarrow> fmt \<le> fmt'"
  by (auto simp: parse_prec_def bindE_Inr_iff Let_def split: if_splits
           dest: parse_digits_advances)

lemma parse_length_advances:
  "parse_length m fmt conv = Inr (fmt', conv') \<Longrightarrow> fmt \<le> fmt'"
  by (auto simp: parse_length_def bindE_Inr_iff Let_def split: if_splits)

lemma rd_Inr_less: "rd m i = Inr ch \<Longrightarrow> i < length m"
  by (simp add: rd_def split: if_splits)

lemma parse_conversion_advances:
  assumes "parse_conversion m fmt as = Inr (nxt, conv, as')"
  shows "fmt < nxt \<and> nxt \<le> length m"
  using assms unfolding parse_conversion_def
  by (auto simp: bindE_Inr_iff
           dest!: parse_flags_advances parse_width_advances parse_prec_advances
                  parse_length_advances rd_Inr_less)

lemma loop_body_advances:
  assumes "loop_body m prev_fmt curr_fmt c = Inr (nxt, c')"
  shows "curr_fmt < nxt \<and> nxt \<le> length m"
  using assms unfolding loop_body_def Let_def
  by (auto simp: bindE_Inr_iff split: if_splits
           dest!: parse_conversion_advances rd_Inr_less)

lemma index_of_Some_less: "index_of ch xs = Some k \<Longrightarrow> k < length xs \<and> xs ! k = ch"
  by (induction xs arbitrary: k) (auto split: if_splits)

lemma memchr_Some_ge: "memchr m pos ch n = Inr (Some k) \<Longrightarrow> pos \<le> k"
  by (auto simp: memchr_def split: option.splits if_splits)

text \<open>
  The loop of \<^verbatim>\<open>printf_core\<close>. \<open>prev_fmt\<close> and \<open>curr_fmt\<close> are equal whenever the header
  calls \<^verbatim>\<open>memchr\<close>, so the loop carries one pointer. When \<^verbatim>\<open>memchr\<close> returns null the
  tail is printed.
\<close>

function printf_loop :: "string \<Rightarrow> nat \<Rightarrow> nat \<Rightarrow> ctx \<Rightarrow> error + ctx" where
  "printf_loop m term_fmt prev_fmt c =
     (case memchr m prev_fmt CHR ''%'' (size_diff term_fmt prev_fmt) of
        Inl e \<Rightarrow> Inl e
      | Inr None \<Rightarrow>
          if prev_fmt \<noteq> term_fmt
          then bindE (slice m prev_fmt (size_diff term_fmt prev_fmt)) (\<lambda>s.
               bindE (copy (printer c) s) (\<lambda>p. Inr (c\<lparr>printer := p\<rparr>)))
          else Inr c
      | Inr (Some curr_fmt) \<Rightarrow>
          (case loop_body m prev_fmt curr_fmt c of
             Inl e \<Rightarrow> Inl e
           | Inr (nxt, c') \<Rightarrow> printf_loop m term_fmt nxt c'))"
  by pat_completeness auto
termination
proof (relation "measure (\<lambda>(m, term_fmt, prev_fmt, c). length m - prev_fmt)")
  show "wf (measure (\<lambda>(m, term_fmt, prev_fmt, c). length m - prev_fmt))" by simp
next
  fix m :: string and term_fmt prev_fmt :: nat and c :: ctx and x2 x2a curr_fmt x2b nxt c'
  assume "memchr m prev_fmt CHR ''%'' (size_diff term_fmt prev_fmt) = Inr x2"
    and "x2 = Some curr_fmt"
    and "loop_body m prev_fmt curr_fmt c = Inr x2b"
    and "(nxt, c') = x2b"
  then have "prev_fmt \<le> curr_fmt" and "curr_fmt < nxt \<and> nxt \<le> length m"
    by (auto dest: memchr_Some_ge loop_body_advances [of m prev_fmt curr_fmt c nxt c'])
  then have "length m - nxt < length m - prev_fmt"
    by arith
  then show "((m, term_fmt, nxt, c'), (m, term_fmt, prev_fmt, c))
             \<in> measure (\<lambda>(m, term_fmt, prev_fmt, c). length m - prev_fmt)"
    by simp
qed

declare printf_loop.simps [simp del]

definition printf_core :: "printer \<Rightarrow> string \<Rightarrow> arg list \<Rightarrow> error + ctx" where
  "printf_core p m as =
     bindE (strlen m) (\<lambda>term_fmt.
       printf_loop m term_fmt 0 \<lparr>args = as, printer = p, stored = []\<rparr>)"

text \<open>The loop body with its local bindings substituted.\<close>

lemma loop_body_unfold:
  "loop_body m prev_fmt curr_fmt c =
     bindE (if prev_fmt \<noteq> curr_fmt
            then bindE (slice m prev_fmt (size_diff curr_fmt prev_fmt)) (copy (printer c))
            else Inr (printer c)) (\<lambda>p.
     bindE (rd m (curr_fmt + 1)) (\<lambda>ch.
       if ch = CHR ''%''
       then bindE (putc p CHR ''%'') (\<lambda>q. Inr (curr_fmt + 1 + 1, c\<lparr>printer := q\<rparr>))
       else
         bindE (parse_conversion m (curr_fmt + 1) (args c)) (\<lambda>(nxt, conv, as).
         bindE (print_conversion conv (c\<lparr>printer := p, args := as\<rparr>)) (\<lambda>(ok, c).
           if \<not> ok
           then bindE (slice m curr_fmt (size_diff nxt curr_fmt)) (\<lambda>s.
                bindE (copy (printer c) s) (\<lambda>q. Inr (nxt, c\<lparr>printer := q\<rparr>)))
           else Inr (nxt, c)))))"
  by (simp add: loop_body_def Let_def cong: if_cong)

text \<open>The loop body at a conversion that succeeds.\<close>

lemma loop_body_converted:
  assumes "i1 = curr_fmt + 1" and "rd m i1 = Inr ch" and "ch \<noteq> CHR ''%''"
    and "(if prev_fmt \<noteq> curr_fmt
          then bindE (slice m prev_fmt (size_diff curr_fmt prev_fmt)) (copy (printer c))
          else Inr (printer c)) = Inr p"
    and "parse_conversion m i1 (args c) = Inr (nxt, conv, as)"
    and "print_conversion conv (c\<lparr>printer := p, args := as\<rparr>) = Inr (True, c')"
  shows "loop_body m prev_fmt curr_fmt c = Inr (nxt, c')"
  unfolding loop_body_unfold assms(1) [symmetric] assms(4) bindE_Inr assms(2)
  using assms(3,5,6) by simp

section \<open>Entry points\<close>

text \<open>Both return the sink's total converted to \<^verbatim>\<open>int\<close>, and here also the final
  state: what the stream or the buffer holds, the arguments left over and the stores of
  \<^verbatim>\<open>%n\<close>.\<close>

definition simple_printf :: "string \<Rightarrow> arg list \<Rightarrow> error + (int \<times> ctx)" where
  "simple_printf m as =
     (let p = \<lparr>file_p = [], buf_p = [], max_p = 0, total_p = 0, ops_p = FileOps\<rparr>
      in bindE (printf_core p m as) (\<lambda>c. Inr (sint (ucast (total_p (printer c)) :: 32 word), c)))"

definition simple_snprintf ::
  "string \<Rightarrow> 64 word \<Rightarrow> string \<Rightarrow> arg list \<Rightarrow> error + (int \<times> ctx)" where
  "simple_snprintf b mx m as =
     (let p = \<lparr>file_p = [], buf_p = b, max_p = (if mx > 0 then mx - 1 else 0), total_p = 0,
               ops_p = BufOps\<rparr>
      in bindE (printf_core p m as) (\<lambda>c.
           let p = printer c;
               endp = (if total_p p < max_p p then total_p p else max_p p)
           in bindE (store_bytes (buf_p p) (unat endp) [NUL]) (\<lambda>b.
                Inr (sint (ucast (total_p p) :: 32 word), c\<lparr>printer := p\<lparr>buf_p := b\<rparr>\<rparr>))))"

text \<open>The two entry points as the specification writes them: \<open>format\<close> is the text
  that \<open>simple_printf\<close> sends to the stream for the C string \<open>s\<close>, \<open>format_to_buffer\<close>
  the count that \<open>simple_snprintf\<close> returns with the buffer it leaves.\<close>

definition format :: "string \<Rightarrow> arg list \<Rightarrow> error + string" where
  "format s as = bindE (simple_printf (cstr s) as) (\<lambda>(n, c). Inr (file_p (printer c)))"

definition format_to_buffer ::
  "string \<Rightarrow> 64 word \<Rightarrow> string \<Rightarrow> arg list \<Rightarrow> error + (int \<times> string)" where
  "format_to_buffer b mx s as =
     bindE (simple_snprintf b mx (cstr s) as) (\<lambda>(n, c). Inr (n, buf_p (printer c)))"

section \<open>Length modifiers before \<^verbatim>\<open>p\<close>\<close>

text \<open>
  C3 says that a length modifier before \<^verbatim>\<open>p\<close> is ignored and the argument is fetched at
  the pointer width. \<open>parse_length\<close> selects \<open>kLengthVoidP\<close> only when \<^verbatim>\<open>p\<close> is the first
  character it sees; after \<^verbatim>\<open>hh\<close> or \<^verbatim>\<open>l\<close> the modifier's own length stays. So
  \<^verbatim>\<open>%hhp\<close> fetches an \<^verbatim>\<open>int\<close> and keeps eight bits of it, \<^verbatim>\<open>%lp\<close> fetches a
  \<^verbatim>\<open>long\<close>, and neither fetches the pointer that \<^verbatim>\<open>%p\<close> does.
\<close>

theorem pointer_length_modifier_kept:
  "parse_length (cstr ''hhp'') 0 conv_init = Inr (2, conv_init\<lparr>length_mod := kLengthChar\<rparr>)
   \<and> parse_length (cstr ''lp'') 0 conv_init = Inr (1, conv_init\<lparr>length_mod := kLengthLong\<rparr>)
   \<and> parse_length (cstr ''p'') 0 conv_init = Inr (0, conv_init\<lparr>length_mod := kLengthVoidP\<rparr>)
   \<and> format ''%p'' [APtr 0x1234] = Inr ''0x1234''
   \<and> format ''%hhp'' [APtr 0x1234] = Inl BadArgument
   \<and> format ''%hhp'' [AInt 0x1234] = Inr ''0x34''
   \<and> format ''%lp'' [APtr 0x1234] = Inl BadArgument"
  by code_simp

section \<open>A format that ends inside a conversion\<close>

text \<open>
  C10 says that the loop of \<open>printf_core\<close> stays before the terminator for every format.
  For the format \<^verbatim>\<open>"%"\<close> the parser already reads the byte after the terminator. For
  \<^verbatim>\<open>"%h"\<close> the terminator is taken as the conversion letter: the loop body writes
  \<^verbatim>\<open>%h\<close> and the terminator to the sink and returns a pointer beyond the terminator,
  from where the next \<^verbatim>\<open>memchr\<close> leaves the array.
\<close>

theorem unfinished_conversion_leaves_format:
  "simple_printf (cstr ''%'') [] = Inl ReadPastEnd
   \<and> bindE (loop_body (cstr ''%h'') 0 0
        \<lparr>args = [], printer = \<lparr>file_p = [], buf_p = [], max_p = 0, total_p = 0, ops_p = FileOps\<rparr>,
         stored = []\<rparr>)
        (\<lambda>(nxt, c). Inr (nxt, file_p (printer c))) = Inr (3, ''%h'' @ [NUL])
   \<and> simple_printf (cstr ''%h'') [] = Inl ReadPastEnd"
  by code_simp

section \<open>The integer renderer stays inside its scratch buffer\<close>

text \<open>The scratch buffer seen as the text it holds: the array has 48 bytes, and from
  the index on it holds \<open>s\<close> and the terminator.\<close>

definition holds :: "int \<times> string \<Rightarrow> string \<Rightarrow> bool" where
  "holds st s \<longleftrightarrow>
     length (snd st) = 48 \<and> fst st = 47 - int (length s) \<and> length s \<le> 47 \<and>
     drop (nat (fst st)) (snd st) = s @ [NUL]"

lemma holds_start:
  assumes "length b = 48"
  shows "\<exists>st. put_back NUL (INT_BUF_SIZE, b) = Inr st \<and> holds st []"
proof -
  have "drop 47 (b[47 := NUL]) = [NUL]"
    using assms by (simp add: drop_update_cancel Cons_nth_drop_Suc [symmetric] flip: upd_conv_take_nth_drop)
  then show ?thesis
    using assms by (simp add: put_back_def INT_BUF_SIZE_def holds_def Let_def)
qed

lemma put_back_holds:
  assumes "holds st s" and "length s < 47"
  shows "\<exists>st'. put_back c st = Inr st' \<and> holds st' (c # s)"
proof -
  obtain idx b where st: "st = (idx, b)" by (cases st)
  from assms st have len: "length b = 48" and idx: "idx = 47 - int (length s)"
    and dr: "drop (nat idx) b = s @ [NUL]"
    by (auto simp: holds_def)
  from idx assms(2) have pos: "0 < idx" "idx \<le> 47" by simp_all
  define j where "j = nat (idx - 1)"
  from pos have j: "Suc j = nat idx" "j < 48" by (simp_all add: j_def)
  have "drop j (b[j := c]) = c # drop (Suc j) b"
    using j len by (simp add: drop_update_cancel Cons_nth_drop_Suc [symmetric] flip: upd_conv_take_nth_drop)
  with dr j have "drop j (b[j := c]) = (c # s) @ [NUL]" by simp
  moreover have "put_back c st = Inr (idx - 1, b[j := c])"
    using pos len st by (simp add: put_back_def Let_def j_def)
  ultimately show ?thesis
    using len idx assms(2) pos by (simp add: holds_def j_def)
qed

lemma peek_holds:
  assumes "holds st s"
  shows "peek st = Inr (hd (s @ [NUL]))"
proof -
  obtain idx b where st: "st = (idx, b)" by (cases st)
  from assms st have len: "length b = 48" and idx: "idx = 47 - int (length s)" "length s \<le> 47"
    and dr: "drop (nat idx) b = s @ [NUL]"
    by (auto simp: holds_def)
  from idx have r: "0 \<le> idx" "nat idx < length b" using len by simp_all
  from dr r have "b ! nat idx = hd (s @ [NUL])"
    by (metis hd_drop_conv_nth)
  with r st show ?thesis by (simp add: peek_def Let_def)
qed


lemma hex_digits_nth:
  assumes "i < 16"
  shows "hex_digits caps ! i \<in> set (take 16 (hex_digits caps))"
    and "(hex_digits caps ! i = CHR ''0'') = (i = 0)"
proof -
  have l: "length (hex_digits caps) = 17" by (simp add: hex_digits_def)
  from assms l have "take 16 (hex_digits caps) ! i = hex_digits caps ! i" by simp
  moreover from assms l have "i < length (take 16 (hex_digits caps))" by simp
  ultimately show "hex_digits caps ! i \<in> set (take 16 (hex_digits caps))"
    by (metis nth_mem)
  show "(hex_digits caps ! i = CHR ''0'') = (i = 0)"
  proof (cases i)
    case 0
    then show ?thesis by (simp add: hex_digits_def)
  next
    case (Suc j)
    have "CHR ''0'' \<notin> set (tl (hex_digits caps))"
      by (simp add: hex_digits_def NUL_def)
    moreover have "j < length (tl (hex_digits caps))"
      using assms Suc l by simp
    ultimately have "tl (hex_digits caps) ! j \<noteq> CHR ''0''"
      by (metis nth_mem)
    moreover have "hex_digits caps ! Suc j = tl (hex_digits caps) ! j"
      using l by (cases "hex_digits caps") simp_all
    ultimately show ?thesis using Suc by simp
  qed
qed

lemma convert_digits_holds:
  assumes b: "b = 8 \<or> b = 10 \<or> b = 16"
  shows "unat v < unat b ^ k \<Longrightarrow> 0 < k \<Longrightarrow> holds st s \<Longrightarrow> length s + k \<le> 47 \<Longrightarrow>
         \<exists>ds st'. convert_digits (hex_digits caps) b v st = Inr st' \<and> holds st' (ds @ s)
           \<and> ds \<noteq> [] \<and> length ds \<le> k \<and> set ds \<subseteq> set (take 16 (hex_digits caps))
           \<and> (hd ds = CHR ''0'') = (v = 0)"
proof (induction k arbitrary: v st s)
  case 0
  then show ?case by simp
next
  case (Suc k)
  from b have ub: "unat b = 8 \<or> unat b = 10 \<or> unat b = 16" by auto
  then have b2: "2 \<le> unat b" "unat b \<le> 16" by auto
  from b have guard: "\<not> (b < 2 \<or> 17 < b)" by (auto simp: word_less_nat_alt)
  define d where "d = hex_digits caps ! unat (v mod b)"
  have m: "unat (v mod b) = unat v mod unat b" by (simp add: unat_mod)
  with b2 have dl: "unat (v mod b) < 16"
    by (metis less_le_trans mod_less_divisor zero_less_numeral le_trans less_le_trans
        not_numeral_le_zero not_less)
  from Suc.prems have "length s < 47" by simp
  from put_back_holds [OF Suc.prems(3) this, of d] obtain st1 where
    p: "put_back d st = Inr st1" and h1: "holds st1 (d # s)" by blast
  have dv: "unat (v div b) = unat v div unat b" by (simp add: unat_div)
  show ?case
  proof (cases "0 < v div b")
    case False
    then have z: "unat v div unat b = 0" using dv by (simp add: word_less_nat_alt)
    with b2 have lt: "unat v < unat b" by (simp add: div_eq_0_iff)
    then have "unat (v mod b) = unat v" using m by simp
    then have "(d = CHR ''0'') = (v = 0)"
      using hex_digits_nth(2) [OF dl, of caps] by (simp add: d_def unat_eq_0)
    moreover have "convert_digits (hex_digits caps) b v st = Inr st1"
      using guard p False by (subst convert_digits.simps) (simp add: d_def)
    moreover have "d \<in> set (take 16 (hex_digits caps))"
      using hex_digits_nth(1) [OF dl] by (simp add: d_def)
    ultimately show ?thesis
      using h1 by (intro exI [of _ "[d]"] exI [of _ st1]) simp
  next
    case True
    then have q: "0 < unat v div unat b" using dv by (simp add: word_less_nat_alt)
    have "unat v div unat b < unat b ^ k"
      using Suc.prems(1) b2 by (simp add: less_mult_imp_div_less mult.commute)
    then have lt: "unat (v div b) < unat b ^ k" using dv by simp
    with q dv have "0 < k" by (cases k) simp_all
    from Suc.prems have "length (d # s) + k \<le> 47" by simp
    from Suc.IH [OF lt \<open>0 < k\<close> h1 this] obtain ds st' where
      r: "convert_digits (hex_digits caps) b (v div b) st1 = Inr st'"
      and h: "holds st' (ds @ d # s)" and ne: "ds \<noteq> []" and l: "length ds \<le> k"
      and sub: "set ds \<subseteq> set (take 16 (hex_digits caps))"
      and lead: "(hd ds = CHR ''0'') = (v div b = 0)"
      by blast
    have "convert_digits (hex_digits caps) b v st = Inr st'"
      using guard p True r by (subst convert_digits.simps) (simp add: d_def)
    moreover have "d \<in> set (take 16 (hex_digits caps))"
      using hex_digits_nth(1) [OF dl] by (simp add: d_def)
    moreover from True have "v div b \<noteq> 0" "v \<noteq> 0" by auto
    ultimately show ?thesis
      using h ne l sub lead
      by (intro exI [of _ "ds @ [d]"] exI [of _ st']) simp
  qed
qed

lemma pad_zeros_holds:
  "holds st s \<Longrightarrow> 1 \<le> prec_idx \<Longrightarrow>
   \<exists>z st'. pad_zeros prec_idx st = Inr st' \<and> holds st' (replicate z CHR ''0'' @ s)
     \<and> fst st' = min (fst st) (prec_idx - 1)"
proof (induction "nat (fst st - prec_idx + 1)" arbitrary: st s)
  case 0
  then have "\<not> fst st \<ge> prec_idx" by simp
  then have "pad_zeros prec_idx st = Inr st"
    by (subst pad_zeros.simps) simp
  with 0 show ?case
    by (intro exI [of _ 0] exI [of _ st]) simp
next
  case (Suc n)
  then have ge: "fst st \<ge> prec_idx" by simp
  with Suc.prems have "length s < 47" by (simp add: holds_def)
  from put_back_holds [OF Suc.prems(1) this, of "CHR ''0''"] obtain st1 where
    p: "put_back CHR ''0'' st = Inr st1" and h1: "holds st1 (CHR ''0'' # s)" by blast
  from h1 Suc.prems(1) have f1: "fst st1 = fst st - 1" by (simp add: holds_def)
  with Suc.hyps(2) have "n = nat (fst st1 - prec_idx + 1)" by simp
  from Suc.hyps(1) [OF this h1 Suc.prems(2)] obtain z st' where
    r: "pad_zeros prec_idx st1 = Inr st'" and h: "holds st' (replicate z CHR ''0'' @ CHR ''0'' # s)"
    and f: "fst st' = min (fst st1) (prec_idx - 1)"
    by blast
  have "pad_zeros prec_idx st = Inr st'"
    using ge p r by (subst pad_zeros.simps) simp
  moreover have "holds st' (replicate (Suc z) CHR ''0'' @ s)"
    using h by (simp add: replicate_app_Cons_same)
  moreover have "fst st' = min (fst st) (prec_idx - 1)"
    using f f1 ge by simp
  ultimately show ?case
    by blast
qed


text \<open>What the block under \<^verbatim>\<open>if (conv->soft_prec)\<close> leaves in \<^verbatim>\<open>conv->prec\<close>, for
  the magnitude \<open>vm\<close> and the sign character \<open>sc\<close>, in the 16-bit arithmetic of the field.\<close>

definition soft_adjusted :: "conv \<Rightarrow> 64 word \<Rightarrow> char \<Rightarrow> 16 word" where
  "soft_adjusted k vm sc =
     (let p1 = (if is_alt k \<and> base k = 16 then prec k - 2 else prec k);
          p2 = (if is_alt k \<and> base k = 8 \<and> vm \<noteq> 0 then p1 - 1 else p1);
          p3 = (if sc \<noteq> NUL then p2 - 1 else p2)
      in if sint p3 < 1 then 1 else p3)"

lemma adjust_soft_prec_holds:
  assumes "holds st ds" and "ds \<noteq> []" and "(hd ds = CHR ''0'') = (vm = 0)"
  shows "adjust_soft_prec k sc st =
           Inr (if soft_prec k then k\<lparr>prec := soft_adjusted k vm sc\<rparr> else k)"
proof -
  from assms(2) have "hd (ds @ [NUL]) = hd ds" by simp
  with peek_holds [OF assms(1)] have pk: "peek st = Inr (hd ds)" by simp
  have lead: "(hd ds \<noteq> CHR ''0'') = (vm \<noteq> 0)" using assms(3) by simp
  show ?thesis
  proof (cases "soft_prec k")
    case False
    then show ?thesis by (simp add: adjust_soft_prec_def)
  next
    case sp: True
    show ?thesis
    proof (cases "is_alt k")
      case False
      with sp show ?thesis
        by (cases "sc = NUL") (simp_all add: adjust_soft_prec_def soft_adjusted_def Let_def)
    next
      case alt: True
      consider (hex) "base k = 16" | (oct) "base k = 8" | (dec) "base k \<noteq> 16" "base k \<noteq> 8"
        by blast
      then show ?thesis
      proof cases
        case hex
        then have "base k \<noteq> 8" by simp
        with sp alt hex show ?thesis
          by (cases "sc = NUL") (simp_all add: adjust_soft_prec_def soft_adjusted_def Let_def)
      next
        case oct
        then have "base k \<noteq> 16" by simp
        with sp alt oct lead show ?thesis
          by (cases "sc = NUL"; cases "vm = 0")
             (simp_all add: adjust_soft_prec_def soft_adjusted_def Let_def pk)
      next
        case dec
        with sp alt show ?thesis
          by (cases "sc = NUL") (simp_all add: adjust_soft_prec_def soft_adjusted_def Let_def)
      qed
    qed
  qed
qed

lemma compute_prec_idx_bounds:
  "1 \<le> compute_prec_idx k sc"
  "is_alt k \<and> base k = 16 \<Longrightarrow> 3 \<le> compute_prec_idx k sc"
  "is_alt k \<and> base k = 8 \<Longrightarrow> 2 \<le> compute_prec_idx k sc"
  "sc \<noteq> NUL \<Longrightarrow> 2 \<le> compute_prec_idx k sc"
  by (auto simp: compute_prec_idx_def INT_BUF_SIZE_def Let_def)

lemma alt_octal_prefix_holds:
  assumes "holds st t" and "is_alt k \<and> base k = 8 \<longrightarrow> length t < 47"
  shows "\<exists>pre st'. alt_octal_prefix k st = Inr st' \<and> holds st' (pre @ t)
           \<and> length pre \<le> 1 \<and> (\<not> (is_alt k \<and> base k = 8) \<longrightarrow> pre = [])"
proof (cases "is_alt k \<and> base k = 8 \<and> hd (t @ [NUL]) \<noteq> CHR ''0''")
  case True
  with assms have "length t < 47" by simp
  from put_back_holds [OF assms(1) this, of "CHR ''0''"] obtain st' where
    "put_back CHR ''0'' st = Inr st'" "holds st' (CHR ''0'' # t)" by blast
  with True peek_holds [OF assms(1)] show ?thesis
    by (intro exI [of _ "[CHR ''0'']"] exI [of _ st']) (simp add: alt_octal_prefix_def)
next
  case False
  with peek_holds [OF assms(1)] assms(1) show ?thesis
    by (intro exI [of _ "[]"] exI [of _ st]) (auto simp: alt_octal_prefix_def)
qed

lemma alt_hex_prefix_holds:
  assumes "holds st t" and "is_alt k \<and> base k = 16 \<longrightarrow> length t < 46"
  shows "\<exists>pre st'. alt_hex_prefix k st = Inr st' \<and> holds st' (pre @ t)
           \<and> (\<not> (is_alt k \<and> base k = 16) \<longrightarrow> pre = [])
           \<and> (is_alt k \<and> base k = 16 \<longrightarrow>
                pre = [CHR ''0'', if is_caps k then CHR ''X'' else CHR ''x''])"
proof (cases "is_alt k \<and> base k = 16")
  case True
  define x where "x = (if is_caps k then CHR ''X'' else CHR ''x'')"
  from True assms have l: "length t < 47" "length (x # t) < 47" by simp_all
  from put_back_holds [OF assms(1) l(1), of x] obtain st1 where
    p1: "put_back x st = Inr st1" and h1: "holds st1 (x # t)" by blast
  from put_back_holds [OF h1 l(2), of "CHR ''0''"] obtain st' where
    p2: "put_back CHR ''0'' st1 = Inr st'" and h2: "holds st' (CHR ''0'' # x # t)" by blast
  from True p1 p2 h2 show ?thesis
    by (intro exI [of _ "[CHR ''0'', x]"] exI [of _ st']) (simp add: alt_hex_prefix_def x_def)
next
  case False
  with assms(1) show ?thesis
    by (intro exI [of _ "[]"] exI [of _ st]) (auto simp: alt_hex_prefix_def)
qed

lemma sign_holds:
  assumes "holds st t" and "sc \<noteq> NUL \<longrightarrow> length t < 47"
  shows "\<exists>pre st'. (if sc \<noteq> NUL then put_back sc st else Inr st) = Inr st' \<and> holds st' (pre @ t)
           \<and> (sc = NUL \<longrightarrow> pre = [])"
proof (cases "sc \<noteq> NUL")
  case True
  with assms have "length t < 47" by simp
  from put_back_holds [OF assms(1) this, of sc] obtain st' where
    "put_back sc st = Inr st'" "holds st' (sc # t)" by blast
  with True show ?thesis
    by (intro exI [of _ "[sc]"] exI [of _ st']) simp
next
  case False
  with assms(1) show ?thesis
    by (intro exI [of _ "[]"] exI [of _ st]) simp
qed

lemma resolve_sign_signed: "fst (resolve_sign k v) \<noteq> NUL \<Longrightarrow> is_signed k"
  by (auto simp: resolve_sign_def split: if_splits)

lemma convert_integer_to_string_holds:
  assumes bs: "base k = 8 \<or> base k = 10 \<or> base k = 16"
    and sg: "is_signed k \<longrightarrow> base k = 10"
    and len: "length b = 48"
    and nonempty: "\<not> (v = 0 \<and> prec k = 0 \<and> \<not> (is_alt k \<and> base k = 8))"
  shows "\<exists>idx b' pre ds.
           convert_integer_to_string v k b =
             Inr (idx,
                  (if soft_prec k
                   then k\<lparr>prec := soft_adjusted k (snd (resolve_sign k v)) (fst (resolve_sign k v))\<rparr>
                   else k), b')
           \<and> holds (idx, b') (pre @ ds) \<and> ds \<noteq> []
           \<and> set ds \<subseteq> set (take 16 (hex_digits (is_caps k)))
           \<and> (is_alt k \<and> base k = 16 \<longrightarrow>
                (\<exists>z. pre = [CHR ''0'', if is_caps k then CHR ''X'' else CHR ''x'']
                             @ replicate z CHR ''0''))"
proof -
  define sc where "sc = fst (resolve_sign k v)"
  define vm where "vm = snd (resolve_sign k v)"
  have rs: "resolve_sign k v = (sc, vm)" by (simp add: sc_def vm_def)
  define k' where "k' = (if soft_prec k then k\<lparr>prec := soft_adjusted k vm sc\<rparr> else k)"
  have k'_same: "is_alt k' = is_alt k" "base k' = base k" "is_caps k' = is_caps k"
    by (simp_all add: k'_def)
  define B :: "64 word" where "B = ucast (base k)"
  from bs have B: "B = 8 \<or> B = 10 \<or> B = 16" by (auto simp: B_def)
  then have "(2::nat) ^ 64 \<le> unat B ^ 22" by auto
  moreover have "unat vm < 2 ^ 64" using unsigned_less [of vm, where ?'a = nat] by simp
  ultimately have small: "unat vm < unat B ^ 22" by linarith
  from holds_start [OF len] obtain st0 where
    s0: "put_back NUL (INT_BUF_SIZE, b) = Inr st0" and h0: "holds st0 []" by blast
  have "\<exists>ds st'. convert_digits (hex_digits (is_caps k)) B vm st0 = Inr st' \<and> holds st' (ds @ [])
           \<and> ds \<noteq> [] \<and> length ds \<le> 22 \<and> set ds \<subseteq> set (take 16 (hex_digits (is_caps k)))
           \<and> (hd ds = CHR ''0'') = (vm = 0)"
    by (rule convert_digits_holds [OF B small _ h0]) simp_all
  then obtain ds st1 where
    s1: "convert_digits (hex_digits (is_caps k)) B vm st0 = Inr st1"
    and h1: "holds st1 ds" and ne: "ds \<noteq> []" and l1: "length ds \<le> 22"
    and sub: "set ds \<subseteq> set (take 16 (hex_digits (is_caps k)))"
    and lead: "(hd ds = CHR ''0'') = (vm = 0)"
    by auto
  have s2: "adjust_soft_prec k sc st1 = Inr k'"
    using adjust_soft_prec_holds [OF h1 ne lead] by (simp add: k'_def)
  define pi where "pi = compute_prec_idx k' sc"
  have pb: "1 \<le> pi" "is_alt k \<and> base k = 16 \<Longrightarrow> 3 \<le> pi" "is_alt k \<and> base k = 8 \<Longrightarrow> 2 \<le> pi"
    "sc \<noteq> NUL \<Longrightarrow> 2 \<le> pi"
    using compute_prec_idx_bounds [where k = k' and sc = sc] by (simp_all add: pi_def k'_same)
  from pad_zeros_holds [OF h1 pb(1)] obtain z st2 where
    s3: "pad_zeros pi st1 = Inr st2" and h2: "holds st2 (replicate z CHR ''0'' @ ds)"
    and f2: "fst st2 = min (fst st1) (pi - 1)"
    by blast
  define t2 where "t2 = replicate z CHR ''0'' @ ds"
  from h1 h2 f2 have "47 - int (length t2) = min (47 - int (length ds)) (pi - 1)"
    by (simp add: holds_def t2_def)
  with l1 have l2: "int (length t2) \<le> max 22 (48 - pi)" by linarith
  have nosign: "sc = NUL" if "is_alt k \<and> base k = 16 \<or> is_alt k \<and> base k = 8"
  proof (rule ccontr)
    assume "sc \<noteq> NUL"
    then have "is_signed k" using resolve_sign_signed [of k v] by (simp add: sc_def)
    with sg that show False by auto
  qed
  have h2': "holds st2 t2" using h2 by (simp add: t2_def)
  have c3: "is_alt k' \<and> base k' = 8 \<longrightarrow> length t2 < 47"
    using pb(3) l2 by (auto simp: k'_same)
  from alt_octal_prefix_holds [OF h2' c3] obtain p3 st3 where
    s4: "alt_octal_prefix k' st2 = Inr st3" and h3: "holds st3 (p3 @ t2)"
    and lp3: "length p3 \<le> 1" and p3: "\<not> (is_alt k \<and> base k = 8) \<longrightarrow> p3 = []"
    unfolding k'_same by blast
  have c4: "is_alt k' \<and> base k' = 16 \<longrightarrow> length (p3 @ t2) < 46"
    using pb(2) l2 p3 by (auto simp: k'_same)
  from alt_hex_prefix_holds [OF h3 c4] obtain p4 st4 where
    s5: "alt_hex_prefix k' st3 = Inr st4" and h4: "holds st4 (p4 @ p3 @ t2)"
    and p4: "\<not> (is_alt k \<and> base k = 16) \<longrightarrow> p4 = []"
    and p4x: "is_alt k \<and> base k = 16 \<longrightarrow>
                p4 = [CHR ''0'', if is_caps k then CHR ''X'' else CHR ''x'']"
    unfolding k'_same by blast
  have c5: "sc \<noteq> NUL \<longrightarrow> length (p4 @ p3 @ t2) < 47"
  proof
    assume n: "sc \<noteq> NUL"
    with nosign have "\<not> (is_alt k \<and> base k = 16)" "\<not> (is_alt k \<and> base k = 8)" by auto
    with p3 p4 have "p3 = []" "p4 = []" by simp_all
    with pb(4) [OF n] l2 show "length (p4 @ p3 @ t2) < 47" by simp
  qed
  from sign_holds [OF h4 c5] obtain p5 st5 where
    s6: "(if sc \<noteq> NUL then put_back sc st4 else Inr st4) = Inr st5"
    and h5: "holds st5 (p5 @ p4 @ p3 @ t2)"
    and p5: "sc = NUL \<longrightarrow> p5 = []"
    by blast
  have pref: "is_alt k \<and> base k = 16 \<longrightarrow>
      (\<exists>z'. p5 @ p4 @ p3 @ replicate z CHR ''0''
             = [CHR ''0'', if is_caps k then CHR ''X'' else CHR ''x''] @ replicate z' CHR ''0'')"
  proof
    assume ah: "is_alt k \<and> base k = 16"
    with nosign have "sc = NUL" by simp
    with p5 have "p5 = []" by simp
    moreover from ah p4x have "p4 = [CHR ''0'', if is_caps k then CHR ''X'' else CHR ''x'']"
      by simp
    moreover from ah p3 have "p3 = []" by simp
    ultimately show "\<exists>z'. p5 @ p4 @ p3 @ replicate z CHR ''0''
             = [CHR ''0'', if is_caps k then CHR ''X'' else CHR ''x''] @ replicate z' CHR ''0''"
      by simp
  qed
  have run: "convert_integer_to_string v k b = Inr (fst st5, k', snd st5)"
    unfolding convert_integer_to_string_def s0 bindE_Inr if_not_P [OF nonempty] rs
    by (simp add: s1 [unfolded B_def] s2 s3 [unfolded pi_def] s4 s5 s6)
  have fin: "holds (fst st5, snd st5) ((p5 @ p4 @ p3 @ replicate z CHR ''0'') @ ds)"
    using h5 by (simp add: t2_def)
  show ?thesis
    unfolding sc_def [symmetric] vm_def [symmetric] k'_def [symmetric]
    using run fin ne sub pref
    by (intro exI [of _ "fst st5"] exI [of _ "snd st5"]
          exI [of _ "p5 @ p4 @ p3 @ replicate z CHR ''0''"] exI [of _ ds]) simp
qed


lemma diouxXp_setup_fields:
  "is_alt (diouxXp_setup conv) = (is_alt conv \<or> type conv = CHR ''p'')"
  "is_signed (diouxXp_setup conv) = (type conv = CHR ''d'' \<or> type conv = CHR ''i'')"
  "base (diouxXp_setup conv) =
     (if type conv = CHR ''o'' then 8
      else if type conv \<in> {CHR ''x'', CHR ''X'', CHR ''p''} then 16 else base conv)"
  "width (diouxXp_setup conv) = width conv"
  "soft_prec (diouxXp_setup conv) =
     (if explicit_prec conv then soft_prec conv
      else (leading_zero conv \<and> explicit_width conv \<and> width conv \<noteq> 0 \<and> \<not> left_justify conv)
           \<or> soft_prec conv)"
  "prec (diouxXp_setup conv) =
     (if explicit_prec conv then prec conv
      else if leading_zero conv \<and> explicit_width conv \<and> width conv \<noteq> 0 \<and> \<not> left_justify conv
      then width conv else 1)"
  by (auto simp: diouxXp_setup_def Let_def)

lemma diouxXp_setup_sane:
  assumes "type conv \<in> {CHR ''d'', CHR ''i'', CHR ''u'', CHR ''o'', CHR ''x'', CHR ''X'', CHR ''p''}"
    and "base conv = 10"
  shows "base (diouxXp_setup conv) = 8 \<or> base (diouxXp_setup conv) = 10
           \<or> base (diouxXp_setup conv) = 16"
    and "is_signed (diouxXp_setup conv) \<longrightarrow> base (diouxXp_setup conv) = 10"
    and "(is_alt (diouxXp_setup conv) \<and> base (diouxXp_setup conv) = 8)
           = (is_alt conv \<and> type conv = CHR ''o'')"
  using assms by (auto simp: diouxXp_setup_fields)


lemma holds_text:
  assumes "holds (idx, b) t"
  shows "0 \<le> idx" "idx < INT_BUF_SIZE" "length b = nat INT_BUF_SIZE"
    "INT_BUF_SIZE - idx - 1 = int (length t)"
    "take (nat (INT_BUF_SIZE - idx - 1)) (drop (nat idx) b) = t"
  using assms by (auto simp: holds_def INT_BUF_SIZE_def)

lemma convert_empty_case:
  assumes "v = 0 \<and> prec k = 0 \<and> \<not> (is_alt k \<and> base k = 8)" and "length b = 48"
  shows "\<exists>b'. convert_integer_to_string v k b = Inr (INT_BUF_SIZE - 1, k, b') \<and> holds (INT_BUF_SIZE - 1, b') []"
proof -
  from holds_start [OF assms(2)] obtain st0 where
    s0: "put_back NUL (INT_BUF_SIZE, b) = Inr st0" and h0: "holds st0 []" by blast
  from h0 have "fst st0 = INT_BUF_SIZE - 1" by (simp add: holds_def INT_BUF_SIZE_def)
  with h0 have "holds (INT_BUF_SIZE - 1, snd st0) []" by (metis prod.collapse)
  moreover have "convert_integer_to_string v k b = Inr (INT_BUF_SIZE - 1, k, snd st0)"
    unfolding convert_integer_to_string_def s0 bindE_Inr if_P [OF assms(1)] ..
  ultimately show ?thesis by blast
qed

lemma precision_1000_example:
  "format ''[%.1000d]'' [AInt 5] = Inr (''['' @ replicate 46 CHR ''0'' @ ''5]'')"
  by code_simp

text \<open>
  C8. For every integer conversion (the letters \<^verbatim>\<open>d i u o x X p\<close>, on a descriptor whose
  radix starts as 10, with any flags, width and precision) and every value, the renderer
  returns without leaving the scratch buffer: no write or read is outside the 48 bytes, the
  index returned is inside the array and the text is shorter than the array, whatever
  precision was asked for.
\<close>

theorem scratch_buffer_never_overrun:
  assumes "type conv \<in> {CHR ''d'', CHR ''i'', CHR ''u'', CHR ''o'', CHR ''x'', CHR ''X'', CHR ''p''}"
    and "base conv = 10"
  shows "\<exists>idx k' b'.
           convert_integer_to_string v (diouxXp_setup conv) (replicate (nat INT_BUF_SIZE) NUL)
             = Inr (idx, k', b')
           \<and> 0 \<le> idx \<and> idx < INT_BUF_SIZE \<and> length b' = nat INT_BUF_SIZE
           \<and> INT_BUF_SIZE - idx - 1 < INT_BUF_SIZE"
proof -
  let ?k = "diouxXp_setup conv"
  let ?b = "replicate (nat INT_BUF_SIZE) NUL"
  have len: "length ?b = 48" by (simp add: INT_BUF_SIZE_def)
  note sane = diouxXp_setup_sane [OF assms]
  show ?thesis
  proof (cases "v = 0 \<and> prec ?k = 0 \<and> \<not> (is_alt ?k \<and> base ?k = 8)")
    case True
    from convert_empty_case [OF True len] obtain b' where
      "convert_integer_to_string v ?k ?b = Inr (INT_BUF_SIZE - 1, ?k, b')"
      "holds (INT_BUF_SIZE - 1, b') []" by blast
    with holds_text [OF this(2)] show ?thesis by (simp add: INT_BUF_SIZE_def)
  next
    case False
    from convert_integer_to_string_holds [OF sane(1) sane(2) len False, of ] obtain idx b' pre ds k'
      where "convert_integer_to_string v ?k ?b = Inr (idx, k', b')" "holds (idx, b') (pre @ ds)"
      by blast
    with holds_text [OF this(2)] show ?thesis by (simp add: INT_BUF_SIZE_def)
  qed
qed

theorem scratch_buffer_never_overrun_witness:
  "type (conv_init\<lparr>explicit_prec := True, prec := 1000, type := CHR ''d''\<rparr>)
     \<in> {CHR ''d'', CHR ''i'', CHR ''u'', CHR ''o'', CHR ''x'', CHR ''X'', CHR ''p''}
   \<and> base (conv_init\<lparr>explicit_prec := True, prec := 1000, type := CHR ''d''\<rparr>) = 10
   \<and> (\<exists>idx k' b'.
         convert_integer_to_string 5
           (diouxXp_setup (conv_init\<lparr>explicit_prec := True, prec := 1000, type := CHR ''d''\<rparr>))
           (replicate (nat INT_BUF_SIZE) NUL) = Inr (idx, k', b')
         \<and> 0 \<le> idx \<and> idx < INT_BUF_SIZE \<and> length b' = nat INT_BUF_SIZE)
   \<and> format ''[%.1000d]'' [AInt 5] = Inr (''['' @ replicate 46 CHR ''0'' @ ''5]'')"
proof -
  let ?k = "conv_init\<lparr>explicit_prec := True, prec := 1000, type := CHR ''d''\<rparr>"
  have h1: "type ?k \<in> {CHR ''d'', CHR ''i'', CHR ''u'', CHR ''o'', CHR ''x'', CHR ''X'', CHR ''p''}"
    by simp
  have h2: "base ?k = 10"
    by (simp add: conv_init_def)
  from scratch_buffer_never_overrun [OF h1 h2, of 5] h1 h2 precision_1000_example
  show ?thesis by blast
qed

section \<open>The empty digit string\<close>




section \<open>Soft precision\<close>









section \<open>Alternate-form hexadecimal of zero\<close>

lemma alt_hex_of_zero: "format ''[%#x]'' [AInt 0] = Inr ''[0x0]''"
  by code_simp

lemma alt_hex_of_255: "format ''[%#x]'' [AInt 255] = Inr ''[0xff]''"
  by code_simp

text \<open>
  C1, as stated: \<^verbatim>\<open>format("[%#x]", 0) == "[0]"\<close>. It fails: \<open>alt_hex_prefix\<close> tests the
  flag and the radix only, never the value, so the prefix is written before the single
  zero digit as well.
\<close>

theorem alt_hex_zero_counterexample: "format ''[%#x]'' [AInt 0] \<noteq> Inr ''[0]''"
  using alt_hex_of_zero by simp

text \<open>The parse of \<^verbatim>\<open>%#x\<close>, and what the renderer gives for its descriptor: the
  prefix \<^verbatim>\<open>0x\<close>, then digits, for every value of the \<^verbatim>\<open>unsigned int\<close> argument.\<close>

lemma alt_hex_spec_parse:
  "parse_conversion (cstr ''[%#x]'') 2 as =
     Inr (4, conv_init\<lparr>is_alt := True, explicit_width := False, width := 0, prec := 0,
               length_mod := kLengthDefault, type := CHR ''x''\<rparr>, as)"
  by code_simp

lemma print_converted_string_plain:
  assumes "sint (width k) = 0" and "ops_p (printer c) = FileOps"
  shows "print_converted_string k t c =
           Inr (True, c\<lparr>printer := printer_file_copy (printer c) t\<rparr>)"
  using assms by (simp add: print_converted_string_def copy_def)

lemma alt_hex_render:
  fixes v :: "32 word"
  defines "k \<equiv> diouxXp_setup (conv_init\<lparr>is_alt := True, explicit_width := False, width := 0,
               prec := 0, length_mod := kLengthDefault, type := CHR ''x''\<rparr>)"
  shows "\<exists>idx b' ds.
           convert_integer_to_string (ucast v) k (replicate (nat INT_BUF_SIZE) NUL)
             = Inr (idx, k, b')
           \<and> take (nat (INT_BUF_SIZE - idx - 1)) (drop (nat idx) b') = ''0x'' @ ds
           \<and> ds \<noteq> [] \<and> set ds \<subseteq> set ''0123456789abcdef''"
proof -
  have kf: "base k = 16" "is_alt k" "\<not> is_signed k" "\<not> soft_prec k" "prec k = 1"
    "\<not> is_caps k"
    by (simp_all add: k_def diouxXp_setup_def conv_init_def Let_def)
  have bs: "base k = 8 \<or> base k = 10 \<or> base k = 16" and sg: "is_signed k \<longrightarrow> base k = 10"
    using kf by simp_all
  have len: "length (replicate (nat INT_BUF_SIZE) NUL) = 48"
    by (simp add: INT_BUF_SIZE_def)
  have ne: "\<not> ((ucast v :: 64 word) = 0 \<and> prec k = 0 \<and> \<not> (is_alt k \<and> base k = 8))"
    using kf by simp
  from convert_integer_to_string_holds [OF bs sg len ne] kf obtain idx b' pre ds z where
    cv: "convert_integer_to_string (ucast v) k (replicate (nat INT_BUF_SIZE) NUL) = Inr (idx, k, b')"
    and h: "holds (idx, b') (pre @ ds)" and d: "ds \<noteq> []"
    and sub: "set ds \<subseteq> set (take 16 (hex_digits False))"
    and pre: "pre = ''0x'' @ replicate z CHR ''0''"
    by auto
  have hx: "take 16 (hex_digits False) = ''0123456789abcdef''"
    by (simp add: hex_digits_def)
  from holds_text(5) [OF h] pre
  have "take (nat (INT_BUF_SIZE - idx - 1)) (drop (nat idx) b') = ''0x'' @ (replicate z CHR ''0'' @ ds)"
    by simp
  moreover have "set (replicate z CHR ''0'' @ ds) \<subseteq> set ''0123456789abcdef''"
    using sub unfolding hx by auto
  ultimately show ?thesis using cv d by blast
qed

text \<open>
  C1, amended: in alternate-form hexadecimal with the default precision the \<^verbatim>\<open>0x\<close>
  prefix is written for every value, zero included. For every value \<open>v\<close> of the argument,
  \<^verbatim>\<open>format("[%#x]", v)\<close> is \<^verbatim>\<open>[0x\<close>, then one or more of the digits
  \<^verbatim>\<open>0123456789abcdef\<close>, then \<^verbatim>\<open>]\<close>; \<^verbatim>\<open>format("[%#x]", 0)\<close> is \<^verbatim>\<open>"[0x0]"\<close> and
  \<^verbatim>\<open>format("[%#x]", 255)\<close> is \<^verbatim>\<open>"[0xff]"\<close>.
\<close>

theorem alt_hex_prefix_unconditional:
  "(\<exists>ds. format ''[%#x]'' [AInt v] = Inr (''[0x'' @ ds @ '']'')
         \<and> ds \<noteq> [] \<and> set ds \<subseteq> set ''0123456789abcdef'')
   \<and> format ''[%#x]'' [AInt 0] = Inr ''[0x0]''
   \<and> format ''[%#x]'' [AInt 255] = Inr ''[0xff]''"
proof -
  let ?m = "cstr ''[%#x]''"
  let ?K = "conv_init\<lparr>is_alt := True, explicit_width := False, width := 0,
               prec := 0, length_mod := kLengthDefault, type := CHR ''x''\<rparr>"
  let ?k = "diouxXp_setup ?K"
  let ?p0 = "\<lparr>file_p = [], buf_p = [], max_p = 0, total_p = 0, ops_p = FileOps\<rparr>"
  let ?c0 = "\<lparr>args = [AInt v], printer = ?p0, stored = []\<rparr>"
  have m: "?m = [CHR ''['', CHR ''%'', CHR ''#'', CHR ''x'', CHR '']'', NUL]"
    by (simp add: cstr_def)
  have len: "strlen ?m = Inr 5"
    by (simp add: strlen_def m NUL_def)
  from alt_hex_render [of v] obtain idx b' ds where
    cv: "convert_integer_to_string (ucast v) ?k (replicate (nat INT_BUF_SIZE) NUL) = Inr (idx, ?k, b')"
    and tx: "take (nat (INT_BUF_SIZE - idx - 1)) (drop (nat idx) b') = ''0x'' @ ds"
    and ds: "ds \<noteq> []" "set ds \<subseteq> set ''0123456789abcdef''"
    by blast
  have kf: "\<not> is_signed ?k" "length_mod ?k = kLengthDefault" "sint (width ?k) = 0"
    by (simp_all add: diouxXp_setup_def conv_init_def Let_def)
  have pc: "print_conversion ?K (\<lparr>args = [AInt v], printer = p, stored = []\<rparr>) =
      Inr (True, \<lparr>args = [], printer = printer_file_copy p (''0x'' @ ds), stored = []\<rparr>)"
    if "ops_p p = FileOps" for p
    using that
    by (simp add: print_conversion_def print_diouxXp_conversions_def Let_def kf
        get_unsigned_integer_def va_arg_int_def cv tx print_converted_string_plain)
  let ?p1 = "printer_file_copy ?p0 ''[''"
  let ?c1 = "\<lparr>args = [], printer = printer_file_copy ?p1 (''0x'' @ ds), stored = []\<rparr>"
  have m0: "memchr ?m 0 CHR ''%'' (size_diff 5 0) = Inr (Some 1)"
    by (simp add: memchr_def size_diff_def m)
  have fl: "(if (0::nat) \<noteq> 1
             then bindE (slice ?m 0 (size_diff 1 0)) (copy (printer ?c0))
             else Inr (printer ?c0)) = Inr ?p1"
    by (simp add: slice_def size_diff_def m copy_def)
  have r2: "rd ?m 2 = Inr CHR ''#''"
    by (simp add: rd_def m)
  have pa: "parse_conversion ?m 2 (args ?c0) = Inr (4, ?K, [AInt v])"
    by (simp add: alt_hex_spec_parse)
  have pr: "print_conversion ?K (?c0\<lparr>printer := ?p1, args := [AInt v]\<rparr>) = Inr (True, ?c1)"
    using pc [of ?p1] by (simp add: printer_file_copy_def)
  have s1: "loop_body ?m 0 1 ?c0 = Inr (4, ?c1)"
    by (rule loop_body_converted [OF _ r2 _ fl pa pr]) simp_all
  have m4: "memchr ?m 4 CHR ''%'' (size_diff 5 4) = Inr None"
    by (simp add: memchr_def size_diff_def m)
  have tl: "slice ?m 4 (size_diff 5 4) = Inr '']''"
    by (simp add: slice_def size_diff_def m)
  have l4: "printf_loop ?m 5 4 ?c1 = Inr (?c1\<lparr>printer := printer_file_copy (printer ?c1) '']''\<rparr>)"
    by (subst printf_loop.simps) (simp add: m4 tl copy_def printer_file_copy_def)
  have l0: "printf_loop ?m 5 0 ?c0 = Inr (?c1\<lparr>printer := printer_file_copy (printer ?c1) '']''\<rparr>)"
    by (subst printf_loop.simps) (simp only: m0 s1 l4 sum.case option.case prod.case)
  have "format ''[%#x]'' [AInt v] = Inr (''[0x'' @ ds @ '']'')"
    by (simp add: format_def simple_printf_def printf_core_def len l0 printer_file_copy_def)
  with ds alt_hex_of_zero alt_hex_of_255 show ?thesis by blast
qed

section \<open>Failed conversions\<close>

text \<open>A failed conversion in the words of the claim: the letter is none of the ten the
  engine knows, or it is \<^verbatim>\<open>c\<close> or \<^verbatim>\<open>s\<close> after a length modifier.\<close>

definition failed_conversion :: "conv \<Rightarrow> bool" where
  "failed_conversion conv \<longleftrightarrow>
     type conv \<notin> {CHR ''n'', CHR ''c'', CHR ''s'', CHR ''d'', CHR ''i'', CHR ''u'', CHR ''o'',
                    CHR ''x'', CHR ''X'', CHR ''p''}
     \<or> (type conv \<in> {CHR ''c'', CHR ''s''} \<and> length_mod conv \<noteq> kLengthDefault)"

text \<open>These are the descriptors for which \<open>print_conversion\<close> returns false, and it
  returns false before it touches the arguments or the sink.\<close>

lemma print_conversion_failed:
  "failed_conversion conv \<Longrightarrow> print_conversion conv c = Inr (False, c)"
  by (auto simp: failed_conversion_def print_conversion_def print_char_conversion_def
       print_string_conversion_def)

lemma print_converted_string_True:
  "print_converted_string k s c = Inr (ok, c') \<Longrightarrow> ok"
  by (auto simp: print_converted_string_def bindE_Inr_iff Let_def)

lemma print_conversion_False:
  assumes "print_conversion conv c = Inr (False, c')"
  shows "failed_conversion conv \<and> c' = c"
  using assms
  by (auto simp: failed_conversion_def print_conversion_def print_char_conversion_def
       print_string_conversion_def print_diouxXp_conversions_def store_character_count_def
       bindE_Inr_iff Let_def
       split: if_splits dest: print_converted_string_True)

lemma parse_width_args:
  assumes "parse_width m fmt conv as = Inr (fmt', conv', as')"
  shows "as' = as \<or> (rd m fmt = Inr CHR ''*'' \<and> fmt' = fmt + 1 \<and> as' = drop 1 as)"
  using assms
  by (auto simp: parse_width_def bindE_Inr_iff va_arg_int_def Let_def
       split: if_splits list.splits arg.splits)

lemma parse_prec_args:
  assumes "parse_prec m fmt conv as = Inr (fmt', conv', as')"
  shows "as' = as \<or> (rd m (fmt + 1) = Inr CHR ''*'' \<and> fmt' = fmt + 2 \<and> as' = drop 1 as)"
  using assms
  by (auto simp: parse_prec_def bindE_Inr_iff va_arg_int_def Let_def
       split: if_splits list.splits arg.splits)

lemma in_slice:
  assumes "rd m i = Inr ch" and "a \<le> i" and "i < b"
  shows "ch \<in> set (take (b - a) (drop a m))"
proof -
  from assms have i: "i < length m" and ch: "m ! i = ch"
    by (auto simp: rd_def split: if_splits)
  from assms i have "i - a < length m - a \<and> i - a < b - a" by arith
  then have "i - a < length (take (b - a) (drop a m))" by simp
  moreover from assms i have "take (b - a) (drop a m) ! (i - a) = m ! i" by simp
  ultimately show ?thesis using ch by (metis nth_mem)
qed

lemma parse_conversion_args:
  assumes "parse_conversion m fmt as = Inr (nxt, conv, as')"
  shows "(\<exists>k\<le>2. as' = drop k as)
         \<and> (CHR ''*'' \<notin> set (take (nxt - a) (drop a m)) \<longrightarrow> a \<le> fmt \<longrightarrow> as' = as)"
proof -
  from assms obtain f1 k1 f2 k2 a2 f3 k3 f4 k4 ty where
    p1: "parse_flags m fmt conv_init = Inr (f1, k1)" and
    p2: "parse_width m f1 k1 as = Inr (f2, k2, a2)" and
    p3: "parse_prec m f2 k2 a2 = Inr (f3, k3, as')" and
    p4: "parse_length m f3 k3 = Inr (f4, k4)" and
    p5: "rd m f4 = Inr ty" and nxt: "nxt = f4 + 1"
    by (auto simp: parse_conversion_def bindE_Inr_iff)
  note adv = parse_flags_advances [OF p1] parse_width_advances [OF p2]
    parse_prec_advances [OF p3] parse_length_advances [OF p4]
  from parse_width_args [OF p2] parse_prec_args [OF p3]
  have cnt: "\<exists>k\<le>2. as' = drop k as"
  proof (elim disjE conjE)
    assume "a2 = as" "as' = a2" then show ?thesis by (intro exI [of _ 0]) simp
  next
    assume "a2 = as" "as' = drop 1 a2" then show ?thesis by (intro exI [of _ 1]) simp
  next
    assume "a2 = drop 1 as" "as' = a2" then show ?thesis by (intro exI [of _ 1]) simp
  next
    assume "a2 = drop 1 as" "as' = drop 1 a2" then show ?thesis by (intro exI [of _ 2]) (simp add: numeral_2_eq_2)
  qed
  have nostar: "as' = as" if ns: "CHR ''*'' \<notin> set (take (nxt - a) (drop a m))" and a: "a \<le> fmt"
  proof -
    have w: "a2 = as"
    proof (rule ccontr)
      assume "a2 \<noteq> as"
      with parse_width_args [OF p2] have st: "rd m f1 = Inr CHR ''*''" by auto
      from in_slice [OF st, of a nxt] adv a nxt ns show False by simp
    qed
    have "as' = a2"
    proof (rule ccontr)
      assume "as' \<noteq> a2"
      with parse_prec_args [OF p3] have st: "rd m (f2 + 1) = Inr CHR ''*''" and f3: "f3 = f2 + 2"
        by auto
      from in_slice [OF st, of a nxt] adv a nxt ns f3 show False by simp
    qed
    with w show ?thesis by simp
  qed
  from cnt nostar show ?thesis by blast
qed

text \<open>
  The arguments that the parse of a specifier takes, read off its text (the characters
  after the \<^verbatim>\<open>%\<close>): one when the character after the flags is \<^verbatim>\<open>*\<close>, and one when the
  two characters after the width are \<^verbatim>\<open>.*\<close>. A \<^verbatim>\<open>*\<close> anywhere else takes none.
\<close>

definition is_flag :: "char \<Rightarrow> bool" where
  "is_flag ch \<longleftrightarrow> ch \<in> {CHR ''0'', CHR ''-'', CHR ''+'', CHR ''#'', CHR '' ''}"

definition after_flags :: "string \<Rightarrow> string" where
  "after_flags spec = dropWhile is_flag spec"

definition after_width :: "string \<Rightarrow> string" where
  "after_width spec =
     (let r = after_flags spec
      in if take 1 r = ''*'' then drop 1 r else dropWhile isdigit r)"

definition star_fetches :: "string \<Rightarrow> nat" where
  "star_fetches spec =
     (if take 1 (after_flags spec) = ''*'' then 1 else 0)
     + (if take 2 (after_width spec) = ''.*'' then 1 else 0)"

lemma parse_flags_loop_text:
  "parse_flags_loop m fmt cs = Inr (fmt', cs') \<Longrightarrow>
   fmt' < length m \<and> drop fmt' m = dropWhile is_flag (drop fmt m)"
proof (induction "length m - fmt" arbitrary: fmt cs rule: less_induct)
  case less
  from less.prems obtain ch where ch: "rd m fmt = Inr ch"
    by (subst (asm) parse_flags_loop.simps) (auto split: sum.splits)
  then have lt: "fmt < length m" and chm: "m ! fmt = ch"
    by (auto simp: rd_def split: if_splits)
  then have dr: "drop fmt m = ch # drop (Suc fmt) m"
    by (metis Cons_nth_drop_Suc)
  show ?case
  proof (cases "is_flag ch")
    case True
    then obtain cs1 where "parse_flags_loop m (fmt + 1) cs1 = Inr (fmt', cs')"
      using less.prems ch
      by (subst (asm) parse_flags_loop.simps) (auto simp: is_flag_def split: if_splits)
    moreover have "length m - (fmt + 1) < length m - fmt" using lt by simp
    ultimately have "fmt' < length m \<and> drop fmt' m = dropWhile is_flag (drop (fmt + 1) m)"
      by (rule less.hyps [rotated])
    with True dr show ?thesis by simp
  next
    case False
    with less.prems ch have "fmt' = fmt"
      by (subst (asm) parse_flags_loop.simps) (auto simp: is_flag_def split: if_splits)
    with False dr lt show ?thesis by simp
  qed
qed

lemma parse_flags_text:
  assumes "parse_flags m fmt conv = Inr (fmt', conv')"
  shows "fmt' < length m" and "drop fmt' m = after_flags (drop fmt m)"
  using assms parse_flags_loop_text [of m fmt "(conv, False)" fmt']
  by (auto simp: parse_flags_def bindE_Inr_iff after_flags_def)

lemma parse_digits_text:
  "parse_digits m fmt ch n = Inr (fmt', n') \<Longrightarrow> rd m fmt = Inr ch \<Longrightarrow>
   fmt' < length m \<and> drop fmt' m = dropWhile isdigit (drop fmt m)"
proof (induction "length m - fmt" arbitrary: fmt ch n rule: less_induct)
  case less
  from less.prems(2) have lt: "fmt < length m" and chm: "m ! fmt = ch"
    by (auto simp: rd_def split: if_splits)
  then have dr: "drop fmt m = ch # drop (Suc fmt) m"
    by (metis Cons_nth_drop_Suc)
  show ?case
  proof (cases "isdigit ch")
    case True
    with less.prems(1) obtain ch' where ch': "rd m (fmt + 1) = Inr ch'"
      and rec: "parse_digits m (fmt + 1) ch' (n * 10 + (of_char ch - 48)) = Inr (fmt', n')"
      by (subst (asm) parse_digits.simps) (auto split: sum.splits)
    have "length m - (fmt + 1) < length m - fmt" using lt by simp
    from less.hyps [OF this rec ch'] True dr show ?thesis by simp
  next
    case False
    with less.prems(1) have "fmt' = fmt"
      by (subst (asm) parse_digits.simps) auto
    with False dr lt show ?thesis by simp
  qed
qed

lemma va_arg_int_rest: "va_arg_int as = Inr (w, as') \<Longrightarrow> as' = drop 1 as"
  by (auto simp: va_arg_int_def split: list.splits arg.splits)

lemma parse_width_text:
  assumes "parse_width m fmt conv as = Inr (fmt', conv', as')" and "fmt < length m"
  shows "drop fmt' m = (if take 1 (drop fmt m) = ''*'' then drop 1 (drop fmt m)
                        else dropWhile isdigit (drop fmt m))"
    and "as' = drop (if take 1 (drop fmt m) = ''*'' then 1 else 0) as"
proof -
  from assms(2) have dr: "drop fmt m = m ! fmt # drop (Suc fmt) m"
    and rd: "rd m fmt = Inr (m ! fmt)"
    by (simp_all add: Cons_nth_drop_Suc rd_def)
  show "drop fmt' m = (if take 1 (drop fmt m) = ''*'' then drop 1 (drop fmt m)
                        else dropWhile isdigit (drop fmt m))"
    and "as' = drop (if take 1 (drop fmt m) = ''*'' then 1 else 0) as"
  proof (atomize (full), cases "m ! fmt = CHR ''*''")
    case True
    with assms rd obtain w where "va_arg_int as = Inr (w, as')" and f: "fmt' = fmt + 1"
      by (auto simp: parse_width_def bindE_Inr_iff Let_def split: if_splits)
    from va_arg_int_rest [OF this(1)] f True dr
    show "drop fmt' m = (if take 1 (drop fmt m) = ''*'' then drop 1 (drop fmt m)
                     else dropWhile isdigit (drop fmt m)) \<and>
      as' = drop (if take 1 (drop fmt m) = ''*'' then 1 else 0) as"
      by simp
  next
    case False
    with assms rd obtain w where pd: "parse_digits m fmt (m ! fmt) 0 = Inr (fmt', w)"
      and a: "as' = as"
      by (auto simp: parse_width_def bindE_Inr_iff)
    from parse_digits_text [OF pd rd] a False dr
    show "drop fmt' m = (if take 1 (drop fmt m) = ''*'' then drop 1 (drop fmt m)
                     else dropWhile isdigit (drop fmt m)) \<and>
      as' = drop (if take 1 (drop fmt m) = ''*'' then 1 else 0) as"
      by simp
  qed
qed

lemma parse_prec_text:
  assumes "parse_prec m fmt conv as = Inr (fmt', conv', as')" and "fmt < length m"
  shows "as' = drop (if take 2 (drop fmt m) = ''.*'' then 1 else 0) as"
proof -
  from assms(2) have dr: "drop fmt m = m ! fmt # drop (Suc fmt) m"
    and rd: "rd m fmt = Inr (m ! fmt)"
    by (simp_all add: Cons_nth_drop_Suc rd_def)
  show ?thesis
  proof (cases "m ! fmt = CHR ''.''")
    case True
    with assms rd obtain ch where ch: "rd m (fmt + 1) = Inr ch"
      by (auto simp: parse_prec_def bindE_Inr_iff Let_def)
    then have lt: "Suc fmt < length m" and chm: "m ! Suc fmt = ch"
      by (auto simp: rd_def split: if_splits)
    then have dr2: "drop (Suc fmt) m = ch # drop (Suc (Suc fmt)) m"
      by (metis Cons_nth_drop_Suc)
    show ?thesis
    proof (cases "ch = CHR ''*''")
      case star: True
      with assms rd ch \<open>m ! fmt = CHR ''.''\<close> obtain pr where "va_arg_int as = Inr (pr, as')"
        by (auto simp: parse_prec_def bindE_Inr_iff Let_def)
      from va_arg_int_rest [OF this] star True dr dr2 show ?thesis by simp
    next
      case False
      with assms rd ch True have "as' = as"
        by (auto simp: parse_prec_def bindE_Inr_iff Let_def)
      with False True dr dr2 show ?thesis by simp
    qed
  next
    case False
    with assms rd have "as' = as"
      by (auto simp: parse_prec_def bindE_Inr_iff Let_def)
    with False dr show ?thesis by simp
  qed
qed

lemma parse_conversion_stars:
  assumes "parse_conversion m fmt as = Inr (nxt, conv, as')"
  shows "as' = drop (star_fetches (drop fmt m)) as"
proof -
  from assms obtain f1 k1 f2 k2 a2 f3 k3 where
    p1: "parse_flags m fmt conv_init = Inr (f1, k1)" and
    p2: "parse_width m f1 k1 as = Inr (f2, k2, a2)" and
    p3: "parse_prec m f2 k2 a2 = Inr (f3, k3, as')"
    by (auto simp: parse_conversion_def bindE_Inr_iff)
  note t1 = parse_flags_text [OF p1]
  note t2 = parse_width_text [OF p2 t1(1)]
  from p3 have "f2 < length m"
    by (auto simp: parse_prec_def bindE_Inr_iff rd_def split: if_splits)
  note t3 = parse_prec_text [OF p3 this]
  have aw: "drop f2 m = after_width (drop fmt m)"
    using t2(1) by (simp add: after_width_def t1(2) Let_def)
  show ?thesis
    unfolding t3 t2(2) star_fetches_def aw [symmetric] t1(2) [symmetric]
    by simp
qed

lemma failed_star_run:
  "bindE (simple_printf (cstr ''%*q'') [AInt 5]) (\<lambda>(n, c). Inr (file_p (printer c), args c))
     = Inr (''%*q'', [])"
  by code_simp

text \<open>
  C2, as stated: a failed conversion consumes no argument, also when the specifier has a
  \<^verbatim>\<open>*\<close>. It fails: \<open>parse_width\<close> fetches the argument for \<^verbatim>\<open>*\<close> before the
  conversion letter is read, and nothing gives it back. After \<^verbatim>\<open>format("%*q", 5)\<close> the
  specifier has been replayed, but no argument is left.
\<close>

theorem failed_star_conversion_counterexample:
  "bindE (simple_printf (cstr ''%*q'') [AInt 5]) (\<lambda>(n, c). Inr (args c)) \<noteq> Inr [AInt 5]"
proof -
  have "bindE (simple_printf (cstr ''%*q'') [AInt 5]) (\<lambda>(n, c). Inr (args c)) = Inr []"
    using failed_star_run
    by (cases "simple_printf (cstr ''%*q'') [AInt 5]") (auto split: prod.splits)
  then show ?thesis by simp
qed

text \<open>
  C2, amended. For every failed conversion (an unrecognised conversion letter, or a length
  modifier before \<^verbatim>\<open>c\<close> or \<^verbatim>\<open>s\<close>), wherever it stands in the format: the loop body
  first writes the literal text that precedes it, then the specifier text, from the
  \<^verbatim>\<open>%\<close> through the last character the parse consumed, unchanged, and returns the
  pointer just after it, where scanning resumes. The conversion itself consumes no
  argument: the arguments left are those left by the parse, which has taken exactly one
  for a \<^verbatim>\<open>*\<close> width and one for a \<^verbatim>\<open>*\<close> precision, and none when the specifier text has
  no \<^verbatim>\<open>*\<close>.
\<close>

theorem failed_conversion_replayed:
  assumes "prev_fmt \<le> curr_fmt"
    and "rd m (curr_fmt + 1) = Inr ch" and "ch \<noteq> CHR ''%''"
    and "parse_conversion m (curr_fmt + 1) (args c) = Inr (nxt, conv, as)"
    and "failed_conversion conv"
  shows "loop_body m prev_fmt curr_fmt c =
           bindE (if prev_fmt \<noteq> curr_fmt
                  then copy (printer c) (take (curr_fmt - prev_fmt) (drop prev_fmt m))
                  else Inr (printer c)) (\<lambda>p.
           bindE (copy p (take (nxt - curr_fmt) (drop curr_fmt m)))
             (\<lambda>p. Inr (nxt, c\<lparr>args := as, printer := p\<rparr>)))
         \<and> curr_fmt < nxt \<and> nxt \<le> length m
         \<and> as = drop (star_fetches (drop (curr_fmt + 1) m)) (args c)
         \<and> (CHR ''*'' \<notin> set (take (nxt - curr_fmt) (drop curr_fmt m)) \<longrightarrow> as = args c)"
proof -
  from parse_conversion_advances [OF assms(4)] have adv: "curr_fmt + 1 < nxt" "nxt \<le> length m"
    by simp_all
  then have sl: "slice m curr_fmt (size_diff nxt curr_fmt) = Inr (take (nxt - curr_fmt) (drop curr_fmt m))"
    by (simp add: slice_def size_diff_def)
  from adv assms(1) have fl: "slice m prev_fmt (size_diff curr_fmt prev_fmt) =
      Inr (take (curr_fmt - prev_fmt) (drop prev_fmt m))"
    by (simp add: slice_def size_diff_def)
  have pc: "\<And>p. print_conversion conv (c\<lparr>printer := p, args := as\<rparr>) =
      Inr (False, c\<lparr>printer := p, args := as\<rparr>)"
    by (rule print_conversion_failed [OF assms(5)])
  have "loop_body m prev_fmt curr_fmt c =
           bindE (if prev_fmt \<noteq> curr_fmt
                  then copy (printer c) (take (curr_fmt - prev_fmt) (drop prev_fmt m))
                  else Inr (printer c)) (\<lambda>p.
           bindE (copy p (take (nxt - curr_fmt) (drop curr_fmt m)))
             (\<lambda>p. Inr (nxt, c\<lparr>args := as, printer := p\<rparr>)))"
    unfolding loop_body_unfold fl bindE_Inr assms(2) assms(4) if_not_P [OF assms(3)]
    by (simp add: pc sl)
  moreover from parse_conversion_args [OF assms(4), of curr_fmt]
  have "CHR ''*'' \<notin> set (take (nxt - curr_fmt) (drop curr_fmt m)) \<longrightarrow> as = args c"
    by simp
  moreover note parse_conversion_stars [OF assms(4)]
  ultimately show ?thesis using adv by simp
qed

theorem failed_conversion_replayed_witness:
  "(0 :: nat) \<le> 2
   \<and> rd (cstr ''ab%*q'') (2 + 1) = Inr CHR ''*''
   \<and> parse_conversion (cstr ''ab%*q'') (2 + 1) [AInt 5]
       = Inr (5, conv_init\<lparr>explicit_width := True, width := 5, type := CHR ''q''\<rparr>, [])
   \<and> failed_conversion (conv_init\<lparr>explicit_width := True, width := 5, type := CHR ''q''\<rparr>)
   \<and> star_fetches (drop (2 + 1) (cstr ''ab%*q'')) = 1
   \<and> loop_body (cstr ''ab%*q'') 0 2
        \<lparr>args = [AInt 5],
         printer = \<lparr>file_p = [], buf_p = [], max_p = 0, total_p = 0, ops_p = FileOps\<rparr>,
         stored = []\<rparr>
       = Inr (5, \<lparr>args = [],
                 printer = \<lparr>file_p = ''ab%*q'', buf_p = [], max_p = 0, total_p = 5, ops_p = FileOps\<rparr>,
                 stored = []\<rparr>)"
proof -
  let ?m = "cstr ''ab%*q''"
  let ?c = "\<lparr>args = [AInt 5],
             printer = \<lparr>file_p = [], buf_p = [], max_p = 0, total_p = 0, ops_p = FileOps\<rparr>,
             stored = []\<rparr>"
  let ?k = "conv_init\<lparr>explicit_width := True, width := 5, type := CHR ''q''\<rparr>"
  have h0: "(0 :: nat) \<le> 2"
    by simp
  have h1: "rd ?m (2 + 1) = Inr CHR ''*''"
    by code_simp
  have h2: "CHR ''*'' \<noteq> CHR ''%''"
    by simp
  have h3: "parse_conversion ?m (2 + 1) (args ?c) = Inr (5, ?k, [])"
    by code_simp
  have h4: "failed_conversion ?k"
    by (simp add: failed_conversion_def conv_init_def)
  have st: "star_fetches (drop (2 + 1) ?m) = 1"
    by code_simp
  from failed_conversion_replayed [OF h0 h1 h2 h3 h4]
  have "loop_body ?m 0 2 ?c =
          bindE (if (0 :: nat) \<noteq> 2
                 then copy (printer ?c) (take (2 - 0) (drop 0 ?m))
                 else Inr (printer ?c)) (\<lambda>p.
          bindE (copy p (take (5 - 2) (drop 2 ?m)))
            (\<lambda>p. Inr (5, ?c\<lparr>args := [], printer := p\<rparr>)))"
    by blast
  then have "loop_body ?m 0 2 ?c
       = Inr (5, \<lparr>args = [],
                 printer = \<lparr>file_p = ''ab%*q'', buf_p = [], max_p = 0, total_p = 5, ops_p = FileOps\<rparr>,
                 stored = []\<rparr>)"
    by (simp add: copy_def printer_file_copy_def cstr_def)
  with h0 h1 h3 h4 st show ?thesis by simp
qed

section \<open>The bounded sink under any sequence of writes\<close>

lemma store_bytes_ok:
  assumes "off + length bs \<le> length b"
  shows "store_bytes b off bs = Inr (take off b @ bs @ drop (off + length bs) b)"
  using assms by (simp add: store_bytes_def)

text \<open>When the total is below the capacity, the bytes that a write stores end at or
  before the capacity, whatever length was asked for.\<close>

lemma buf_room:
  fixes len :: "64 word"
  assumes "unat (max_p p) \<le> length (buf_p p)" and "\<not> max_p p \<le> total_p p"
  shows "unat (total_p p)
           + unat (if len > max_p p - total_p p then max_p p - total_p p else len)
         \<le> unat (max_p p)"
proof -
  from assms(2) have lt: "unat (total_p p) < unat (max_p p)"
    by (simp add: word_le_nat_alt not_le)
  then have d: "unat (max_p p - total_p p) = unat (max_p p) - unat (total_p p)"
    by (simp add: unat_sub word_le_nat_alt)
  show ?thesis
  proof (cases "len > max_p p - total_p p")
    case True
    with d lt show ?thesis by simp
  next
    case False
    then have "unat len \<le> unat (max_p p - total_p p)"
      by (simp add: word_le_nat_alt not_less)
    with d lt False show ?thesis by simp
  qed
qed

lemma buf_store:
  fixes len :: "64 word"
  assumes "unat (max_p p) \<le> length (buf_p p)" and "\<not> max_p p \<le> total_p p"
    and "k = unat (if len > max_p p - total_p p then max_p p - total_p p else len)"
    and "length t = k"
  shows "\<exists>b. store_bytes (buf_p p) (unat (total_p p)) t = Inr b
           \<and> b = take (unat (total_p p)) (buf_p p) @ t @ drop (unat (total_p p) + k) (buf_p p)
           \<and> length b = length (buf_p p)
           \<and> drop (unat (max_p p)) b = drop (unat (max_p p)) (buf_p p)"
proof -
  from buf_room [OF assms(1,2), of len] assms(3)
  have r: "unat (total_p p) + k \<le> unat (max_p p)" by simp
  with assms have fits: "unat (total_p p) + length t \<le> length (buf_p p)" by simp
  from store_bytes_ok [OF fits] r assms show ?thesis
    by simp
qed

text \<open>What a bounded sink becomes when the text \<open>t\<close> is written to it: the total
  grows by the length of \<open>t\<close> modulo \<open>2 ^ 64\<close>, and below the capacity the array takes as
  much of \<open>t\<close> as fits. The three operations of the buffer sink all have this effect.\<close>

definition buf_written :: "printer \<Rightarrow> string \<Rightarrow> printer" where
  "buf_written p t =
     (let len = word_of_nat (length t) :: 64 word;
          k = unat (if len > max_p p - total_p p then max_p p - total_p p else len)
      in p\<lparr>total_p := total_p p + len,
           buf_p := (if max_p p \<le> total_p p then buf_p p
                     else take (unat (total_p p)) (buf_p p) @ take k t
                            @ drop (unat (total_p p) + k) (buf_p p))\<rparr>)"

lemma buf_written_frame:
  assumes "unat (max_p p) \<le> length (buf_p p)"
  shows "max_p (buf_written p t) = max_p p" "ops_p (buf_written p t) = ops_p p"
    "file_p (buf_written p t) = file_p p"
    "total_p (buf_written p t) = total_p p + word_of_nat (length t)"
    "length (buf_p (buf_written p t)) = length (buf_p p)"
    "drop (unat (max_p p)) (buf_p (buf_written p t)) = drop (unat (max_p p)) (buf_p p)"
proof -
  show "max_p (buf_written p t) = max_p p" "ops_p (buf_written p t) = ops_p p"
    "file_p (buf_written p t) = file_p p"
    "total_p (buf_written p t) = total_p p + word_of_nat (length t)"
    by (simp_all add: buf_written_def Let_def)
  define len :: "64 word" where "len = word_of_nat (length t)"
  define k where "k = unat (if len > max_p p - total_p p then max_p p - total_p p else len)"
  have "k \<le> unat len" by (auto simp: k_def word_less_nat_alt)
  also have "\<dots> \<le> length t" by (simp add: len_def unat_of_nat)
  finally have l: "length (take k t) = k" by simp
  show "length (buf_p (buf_written p t)) = length (buf_p p)"
    "drop (unat (max_p p)) (buf_p (buf_written p t)) = drop (unat (max_p p)) (buf_p p)"
  proof (atomize (full), cases "max_p p \<le> total_p p")
    case True
    then show "length (buf_p (buf_written p t)) = length (buf_p p) \<and>
      drop (unat (max_p p)) (buf_p (buf_written p t)) = drop (unat (max_p p)) (buf_p p)"
      by (simp add: buf_written_def Let_def)
  next
    case False
    from buf_store [OF assms False k_def l] obtain b where
      "b = take (unat (total_p p)) (buf_p p) @ take k t @ drop (unat (total_p p) + k) (buf_p p)"
      "length b = length (buf_p p)"
      "drop (unat (max_p p)) b = drop (unat (max_p p)) (buf_p p)"
      by blast
    moreover have "buf_p (buf_written p t) =
       take (unat (total_p p)) (buf_p p) @ take k t @ drop (unat (total_p p) + k) (buf_p p)"
      using False by (simp add: buf_written_def Let_def k_def len_def)
    ultimately show "length (buf_p (buf_written p t)) = length (buf_p p) \<and>
      drop (unat (max_p p)) (buf_p (buf_written p t)) = drop (unat (max_p p)) (buf_p p)"
      by simp
  qed
qed

lemma copy_buf_written:
  assumes "ops_p p = BufOps" and "unat (max_p p) \<le> length (buf_p p)"
  shows "copy p s = Inr (buf_written p s)"
proof (cases "max_p p \<le> total_p p")
  case True
  with assms show ?thesis
    by (simp add: copy_def printer_buf_copy_def buf_written_def Let_def)
next
  case False
  define len :: "64 word" where "len = word_of_nat (length s)"
  define k where "k = unat (if len > max_p p - total_p p then max_p p - total_p p else len)"
  have "k \<le> unat len" by (auto simp: k_def word_less_nat_alt)
  also have "\<dots> \<le> length s" by (simp add: len_def unat_of_nat)
  finally have l: "length (take k s) = k" by simp
  from buf_store [OF assms(2) False k_def l]
  have st: "store_bytes (buf_p p) (unat (total_p p)) (take k s) =
    Inr (take (unat (total_p p)) (buf_p p) @ take k s @ drop (unat (total_p p) + k) (buf_p p))"
    by blast
  have "printer_buf_copy p s =
    bindE (store_bytes (buf_p p) (unat (total_p p)) (take k s))
      (\<lambda>b. Inr (p\<lparr>total_p := total_p p + len, buf_p := b\<rparr>))"
    using False by (simp add: printer_buf_copy_def Let_def k_def len_def)
  also have "\<dots> = Inr (buf_written p s)"
    unfolding st using False by (simp add: buf_written_def Let_def k_def len_def)
  finally show ?thesis using assms by (simp add: copy_def)
qed

lemma fill_buf_written:
  assumes "ops_p p = BufOps" and "unat (max_p p) \<le> length (buf_p p)"
  shows "fill p c len = Inr (buf_written p (replicate (unat len) c))"
proof (cases "max_p p \<le> total_p p")
  case True
  with assms show ?thesis
    by (simp add: fill_def printer_buf_fill_def buf_written_def Let_def)
next
  case False
  define k where "k = unat (if len > max_p p - total_p p then max_p p - total_p p else len)"
  have kl: "k \<le> unat len" by (auto simp: k_def word_less_nat_alt)
  have l: "length (replicate k c) = k" by simp
  from buf_store [OF assms(2) False k_def l]
  have st: "store_bytes (buf_p p) (unat (total_p p)) (replicate k c) =
    Inr (take (unat (total_p p)) (buf_p p) @ replicate k c @ drop (unat (total_p p) + k) (buf_p p))"
    by blast
  have "printer_buf_fill p c len =
    bindE (store_bytes (buf_p p) (unat (total_p p)) (replicate k c))
      (\<lambda>b. Inr (p\<lparr>total_p := total_p p + len, buf_p := b\<rparr>))"
    using False by (simp add: printer_buf_fill_def Let_def k_def)
  also have "\<dots> = Inr (buf_written p (replicate (unat len) c))"
    unfolding st using False kl by (simp add: buf_written_def Let_def k_def min_absorb2)
  finally show ?thesis using assms by (simp add: fill_def)
qed

lemma putc_buf_written:
  assumes "ops_p p = BufOps" and "unat (max_p p) \<le> length (buf_p p)"
  shows "putc p c = Inr (buf_written p [c])"
proof (cases "max_p p \<le> total_p p")
  case True
  with assms show ?thesis
    by (simp add: putc_def printer_buf_putc_def buf_written_def Let_def)
next
  case False
  define k where "k = unat (if (1::64 word) > max_p p - total_p p then max_p p - total_p p else 1)"
  from False have "max_p p - total_p p \<noteq> 0" by auto
  then have n1: "\<not> (1::64 word) > max_p p - total_p p"
    by (simp add: word_less_1)
  then have k1: "k = 1" by (simp add: k_def)
  have l: "length [c] = k" by (simp add: k1)
  from buf_store [OF assms(2) False k_def l]
  have st: "store_bytes (buf_p p) (unat (total_p p)) [c] =
    Inr (take (unat (total_p p)) (buf_p p) @ [c] @ drop (unat (total_p p) + k) (buf_p p))"
    by blast
  have "printer_buf_putc p c =
    bindE (store_bytes (buf_p p) (unat (total_p p)) [c])
      (\<lambda>b. Inr (p\<lparr>buf_p := b, total_p := total_p p + 1\<rparr>))"
    using False by (simp add: printer_buf_putc_def)
  also have "\<dots> = Inr (buf_written p [c])"
    unfolding st using False n1 by (simp add: buf_written_def Let_def k1)
  finally show ?thesis using assms by (simp add: putc_def)
qed

text \<open>The three operations of a sink as data, so that a sequence of calls is a list.\<close>

datatype write_op = Copy string | Fill char "64 word" | Putc char

fun write_text :: "write_op \<Rightarrow> string" where
  "write_text (Copy s) = s"
| "write_text (Fill c n) = replicate (unat n) c"
| "write_text (Putc c) = [c]"

fun apply_write :: "printer \<Rightarrow> write_op \<Rightarrow> error + printer" where
  "apply_write p (Copy s) = copy p s"
| "apply_write p (Fill c n) = fill p c n"
| "apply_write p (Putc c) = putc p c"

fun run_writes :: "printer \<Rightarrow> write_op list \<Rightarrow> error + printer" where
  "run_writes p [] = Inr p"
| "run_writes p (w # ws) =
     (case apply_write p w of Inl e \<Rightarrow> Inl e | Inr p' \<Rightarrow> run_writes p' ws)"

lemma apply_write_written:
  assumes "ops_p p = BufOps" and "unat (max_p p) \<le> length (buf_p p)"
  shows "apply_write p w = Inr (buf_written p (write_text w))"
  using assms
  by (cases w) (simp_all add: copy_buf_written fill_buf_written putc_buf_written)

lemma run_writes_frame:
  assumes "ops_p p = BufOps" and "unat (max_p p) \<le> length (buf_p p)"
  shows "\<exists>p'. run_writes p ws = Inr p'
           \<and> ops_p p' = BufOps \<and> max_p p' = max_p p
           \<and> length (buf_p p') = length (buf_p p)
           \<and> drop (unat (max_p p)) (buf_p p') = drop (unat (max_p p)) (buf_p p)
           \<and> total_p p' = total_p p + word_of_nat (length (concat (map write_text ws)))"
  using assms
proof (induction ws arbitrary: p)
  case Nil
  then show ?case by simp
next
  case (Cons w ws)
  let ?p1 = "buf_written p (write_text w)"
  note fr = buf_written_frame [OF Cons.prems(2), of "write_text w"]
  from fr Cons.prems have p1: "ops_p ?p1 = BufOps" "unat (max_p ?p1) \<le> length (buf_p ?p1)"
    by simp_all
  from Cons.IH [OF p1] obtain p' where
    r: "run_writes ?p1 ws = Inr p'" and
    k: "ops_p p' = BufOps" "max_p p' = max_p ?p1" "length (buf_p p') = length (buf_p ?p1)"
       "drop (unat (max_p ?p1)) (buf_p p') = drop (unat (max_p ?p1)) (buf_p ?p1)"
       "total_p p' = total_p ?p1 + word_of_nat (length (concat (map write_text ws)))"
    by blast
  from r have "run_writes p (w # ws) = Inr p'"
    by (simp add: apply_write_written [OF Cons.prems])
  with k fr show ?case by simp
qed

text \<open>
  C7, as stated: the total always equals the full logical output length and never
  decreases. It fails where the \<^verbatim>\<open>size_t\<close> total wraps. A fill of \<open>2 ^ 64 - 1\<close> bytes into
  a sink of capacity 4 stores four bytes and leaves the total at \<open>2 ^ 64 - 1\<close>; the next
  single character brings the total to 0 and the one after it is stored at offset 0, over
  the first byte of the output, and leaves the total at 1.
\<close>

theorem bounded_sink_total_wraps:
  "run_writes \<lparr>file_p = [], buf_p = ''??????'', max_p = 4, total_p = 0, ops_p = BufOps\<rparr>
     [Fill CHR ''a'' (- 1)]
     = Inr \<lparr>file_p = [], buf_p = ''aaaa??'', max_p = 4, total_p = - 1, ops_p = BufOps\<rparr>
   \<and> run_writes \<lparr>file_p = [], buf_p = ''aaaa??'', max_p = 4, total_p = - 1, ops_p = BufOps\<rparr>
     [Putc CHR ''b'', Putc CHR ''c'']
     = Inr \<lparr>file_p = [], buf_p = ''caaa??'', max_p = 4, total_p = 1, ops_p = BufOps\<rparr>
   \<and> (1 :: 64 word) < - 1"
  by code_simp

text \<open>
  C7, amended. On a bounded sink whose array has room for its capacity, every sequence of
  copy, fill and single-character writes succeeds; the bytes at offsets at or beyond the
  capacity are the ones that were there before; the total has grown by the full length of
  every write, stored or not, modulo \<open>2 ^ 64\<close>. As long as the old total and the written
  lengths together stay below \<open>2 ^ 64\<close>, the total is their exact sum and has not
  decreased.
\<close>

theorem bounded_sink_invariant:
  assumes "ops_p p = BufOps" and "unat (max_p p) \<le> length (buf_p p)"
  shows "\<exists>p'. run_writes p ws = Inr p'
           \<and> max_p p' = max_p p
           \<and> length (buf_p p') = length (buf_p p)
           \<and> drop (unat (max_p p)) (buf_p p') = drop (unat (max_p p)) (buf_p p)
           \<and> total_p p' = total_p p + word_of_nat (length (concat (map write_text ws)))
           \<and> (unat (total_p p) + length (concat (map write_text ws)) < 2 ^ 64 \<longrightarrow>
                unat (total_p p') = unat (total_p p) + length (concat (map write_text ws))
                \<and> total_p p \<le> total_p p')"
proof -
  let ?n = "length (concat (map write_text ws))"
  from run_writes_frame [OF assms, of ws] obtain p' where
    r: "run_writes p ws = Inr p'" "max_p p' = max_p p" "length (buf_p p') = length (buf_p p)"
      "drop (unat (max_p p)) (buf_p p') = drop (unat (max_p p)) (buf_p p)"
      and t: "total_p p' = total_p p + word_of_nat ?n"
    by blast
  have "unat (total_p p') = unat (total_p p) + ?n \<and> total_p p \<le> total_p p'"
    if small: "unat (total_p p) + ?n < 2 ^ 64"
  proof -
    from small have "?n < 2 ^ 64" by simp
    then have n: "unat (word_of_nat ?n :: 64 word) = ?n" by (simp add: unat_of_nat)
    with small have "unat (total_p p + word_of_nat ?n) = unat (total_p p) + ?n"
      by (simp add: unat_add_lem [THEN iffD1])
    with t show ?thesis by (simp add: word_le_nat_alt)
  qed
  with r t show ?thesis by blast
qed

theorem bounded_sink_invariant_witness:
  "ops_p \<lparr>file_p = [], buf_p = ''??????'', max_p = 4, total_p = 0, ops_p = BufOps\<rparr> = BufOps
   \<and> unat (max_p \<lparr>file_p = [], buf_p = ''??????'', max_p = 4, total_p = 0, ops_p = BufOps\<rparr>)
       \<le> length (buf_p \<lparr>file_p = [], buf_p = ''??????'', max_p = 4, total_p = 0, ops_p = BufOps\<rparr>)
   \<and> unat (total_p \<lparr>file_p = [], buf_p = ''??????'', max_p = 4, total_p = 0, ops_p = BufOps\<rparr>)
       + length (concat (map write_text [Copy ''ab'', Fill CHR ''0'' 3, Putc CHR ''z''])) < 2 ^ 64
   \<and> (\<exists>p'. run_writes \<lparr>file_p = [], buf_p = ''??????'', max_p = 4, total_p = 0, ops_p = BufOps\<rparr>
              [Copy ''ab'', Fill CHR ''0'' 3, Putc CHR ''z''] = Inr p'
          \<and> unat (total_p p') = 6 \<and> drop 4 (buf_p p') = ''??'')
   \<and> run_writes \<lparr>file_p = [], buf_p = ''??????'', max_p = 4, total_p = 0, ops_p = BufOps\<rparr>
        [Copy ''ab'', Fill CHR ''0'' 3, Putc CHR ''z'']
       = Inr \<lparr>file_p = [], buf_p = ''ab00??'', max_p = 4, total_p = 6, ops_p = BufOps\<rparr>"
proof -
  let ?p = "\<lparr>file_p = [], buf_p = ''??????'', max_p = 4, total_p = 0, ops_p = BufOps\<rparr>"
  let ?ws = "[Copy ''ab'', Fill CHR ''0'' 3, Putc CHR ''z'']"
  have h1: "ops_p ?p = BufOps" by simp
  have h2: "unat (max_p ?p) \<le> length (buf_p ?p)" by simp
  have h3: "unat (total_p ?p) + length (concat (map write_text ?ws)) < 2 ^ 64" by simp
  have n: "length (concat (map write_text ?ws)) = 6" by simp
  have e: "run_writes ?p ?ws
       = Inr \<lparr>file_p = [], buf_p = ''ab00??'', max_p = 4, total_p = 6, ops_p = BufOps\<rparr>"
    by code_simp
  from bounded_sink_invariant [OF h1 h2, of ?ws] h3 obtain p' where
    "run_writes ?p ?ws = Inr p'"
    "drop (unat (max_p ?p)) (buf_p p') = drop (unat (max_p ?p)) (buf_p ?p)"
    "unat (total_p p') = unat (total_p ?p) + length (concat (map write_text ?ws))"
    by blast
  then have "\<exists>p'. run_writes ?p ?ws = Inr p' \<and> unat (total_p p') = 6 \<and> drop 4 (buf_p p') = ''??''"
    unfolding n by simp
  with h1 h2 h3 e show ?thesis by blast
qed

section \<open>The bounded-buffer entry point\<close>

text \<open>On a stream, \<open>fill\<close> and \<open>putc\<close> write what a \<open>copy\<close> of the same text writes.\<close>

lemma file_fill_loop_text:
  "(case file_fill_loop out c len of (out', len') \<Rightarrow> out' @ replicate (unat len') c)
     = out @ replicate (unat len) c"
proof (induction out c len rule: file_fill_loop.induct)
  case (1 out c len)
  show ?case
  proof (cases "32 \<le> len")
    case True
    then have u: "32 \<le> unat len" "unat (len - 32) = unat len - 32"
      by (simp_all add: unat_sub word_le_nat_alt)
    then have "replicate 32 c @ replicate (unat (len - 32)) c = replicate (unat len) c"
      by (simp flip: replicate_add)
    with 1 [OF True] True show ?thesis
      by (subst file_fill_loop.simps) simp
  next
    case False
    then show ?thesis
      by (subst file_fill_loop.simps) simp
  qed
qed

lemma printer_file_fill_eq:
  "printer_file_fill p c len =
     p\<lparr>total_p := total_p p + len, file_p := file_p p @ replicate (unat len) c\<rparr>"
proof -
  obtain out' len' where l: "file_fill_loop (file_p p) c len = (out', len')"
    by (cases "file_fill_loop (file_p p) c len")
  with file_fill_loop_text [where out = "file_p p" and c = c and len = len]
  have t: "out' @ replicate (unat len') c = file_p p @ replicate (unat len) c" by simp
  show ?thesis
  proof (cases "len' > 0")
    case True
    with l t show ?thesis by (simp add: printer_file_fill_def Let_def)
  next
    case False
    then have "len' = 0" by (simp add: word_gt_0)
    with l t show ?thesis by (simp add: printer_file_fill_def Let_def)
  qed
qed

lemma file_ops_written:
  assumes "ops_p p = FileOps"
  shows "copy p s = Inr (printer_file_copy p s)"
    "fill p c len = Inr (printer_file_copy p (replicate (unat len) c))"
    "putc p c = Inr (printer_file_copy p [c])"
  using assms
  by (simp_all add: copy_def fill_def putc_def printer_file_fill_eq printer_file_copy_def
      printer_file_putc_def)

text \<open>The invariant of a bounded sink whose logical output so far is \<open>out\<close>, over the
  array \<open>b0\<close> that the caller handed in: the total is the length of \<open>out\<close> modulo
  \<open>2 ^ 64\<close>, and as long as that length is below \<open>2 ^ 64\<close> the array holds \<open>out\<close> cut at the
  capacity, followed by the bytes of \<open>b0\<close> that were not reached.\<close>

definition bounded :: "string \<Rightarrow> printer \<Rightarrow> string \<Rightarrow> bool" where
  "bounded b0 p out \<longleftrightarrow>
     ops_p p = BufOps \<and> unat (max_p p) \<le> length b0 \<and> length (buf_p p) = length b0 \<and>
     total_p p = word_of_nat (length out) \<and>
     (length out < 2 ^ 64 \<longrightarrow>
        buf_p p = take (unat (max_p p)) out @ drop (min (length out) (unat (max_p p))) b0)"

lemma bounded_written:
  assumes "bounded b0 p out"
  shows "bounded b0 (buf_written p t) (out @ t)"
proof -
  from assms have a: "ops_p p = BufOps" "unat (max_p p) \<le> length b0"
    "length (buf_p p) = length b0" "total_p p = word_of_nat (length out)"
    by (simp_all add: bounded_def)
  then have cap: "unat (max_p p) \<le> length (buf_p p)" by simp
  note fr = buf_written_frame [OF cap, of t]
  have content: "buf_p (buf_written p t) =
      take (unat (max_p p)) (out @ t) @ drop (min (length (out @ t)) (unat (max_p p))) b0"
    if small: "length (out @ t) < 2 ^ 64"
  proof -
    let ?L = "length out" and ?M = "unat (max_p p)"
    from small have lo: "?L < 2 ^ 64" and lt: "length t < 2 ^ 64" by simp_all
    with assms have buf: "buf_p p = take ?M out @ drop (min ?L ?M) b0"
      by (simp add: bounded_def)
    have ut: "unat (total_p p) = ?L"
      using lo by (simp add: a(4) unat_of_nat)
    have ul: "unat (word_of_nat (length t) :: 64 word) = length t"
      using lt by (simp add: unat_of_nat)
    show ?thesis
    proof (cases "max_p p \<le> total_p p")
      case True
      then have "?M \<le> ?L" using ut by (simp add: word_le_nat_alt)
      with True buf show ?thesis
        by (simp add: buf_written_def Let_def min_absorb2)
    next
      case False
      then have lm: "?L < ?M" using ut by (simp add: word_le_nat_alt not_le)
      then have av: "unat (max_p p - total_p p) = ?M - ?L"
        using ut by (simp add: unat_sub word_le_nat_alt)
      define k where "k = unat (if word_of_nat (length t) > max_p p - total_p p
                               then max_p p - total_p p else word_of_nat (length t))"
      have k: "k = min (length t) (?M - ?L)"
        by (auto simp: k_def word_less_nat_alt av ul)
      from lm buf have buf': "buf_p p = out @ drop ?L b0" by (simp add: min_absorb1)
      have "buf_p (buf_written p t) = take ?L (buf_p p) @ take k t @ drop (?L + k) (buf_p p)"
        using False by (simp add: buf_written_def Let_def ut k_def)
      also have "\<dots> = out @ take k t @ drop (?L + k) b0"
        by (simp add: buf' add.commute)
      also have "\<dots> = take ?M (out @ t) @ drop (min (length (out @ t)) ?M) b0"
        using lm by (auto simp: k min_def)
      finally show ?thesis .
    qed
  qed
  from a fr content show ?thesis
    by (simp add: bounded_def)
qed


text \<open>
  The engine reaches its sink only through \<open>copy\<close>, \<open>fill\<close> and \<open>putc\<close>, so a run into a
  buffer and a run to a stream go through the same steps. The relation between the two
  sinks: the totals agree, and the buffer sink is \<open>bounded\<close> for what the stream has
  received; between two contexts: the arguments left and the stores of \<^verbatim>\<open>%n\<close> agree as
  well.
\<close>

definition sim_printer :: "string \<Rightarrow> 64 word \<Rightarrow> printer \<Rightarrow> printer \<Rightarrow> bool" where
  "sim_printer b0 M fp bp \<longleftrightarrow>
     ops_p fp = FileOps \<and> total_p fp = total_p bp \<and> bounded b0 bp (file_p fp)
     \<and> max_p bp = M"

definition sim :: "string \<Rightarrow> 64 word \<Rightarrow> ctx \<Rightarrow> ctx \<Rightarrow> bool" where
  "sim b0 M fc bc \<longleftrightarrow>
     args fc = args bc \<and> stored fc = stored bc \<and> sim_printer b0 M (printer fc) (printer bc)"

lemma bindE_rel:
  assumes "rel_sum (=) R x y" and "\<And>a b. R a b \<Longrightarrow> rel_sum (=) S (f a) (g b)"
  shows "rel_sum (=) S (bindE x f) (bindE y g)"
  using assms by (cases x; cases y) simp_all

lemma bindE_same:
  assumes "\<And>a. x = Inr a \<Longrightarrow> rel_sum (=) S (f a) (g a)"
  shows "rel_sum (=) S (bindE x f) (bindE x g)"
  using assms by (cases x) simp_all

lemma written_sim:
  assumes "sim_printer b0 M fp bp"
  shows "sim_printer b0 M (printer_file_copy fp t) (buf_written bp t)"
proof -
  from assms have a: "ops_p fp = FileOps" "total_p fp = total_p bp" "bounded b0 bp (file_p fp)"
    by (simp_all add: sim_printer_def)
  from a(3) have cap: "unat (max_p bp) \<le> length (buf_p bp)" by (simp add: bounded_def)
  from assms have r: "max_p bp = M" by (simp add: sim_printer_def)
  from bounded_written [OF a(3), of t] a(1,2) buf_written_frame(1,4) [OF cap, of t] r
  show ?thesis
    by (simp add: sim_printer_def printer_file_copy_def)
qed

lemma sink_sim:
  assumes "sim_printer b0 M fp bp"
  shows "rel_sum (=) (sim_printer b0 M) (copy fp s) (copy bp s)"
    and "rel_sum (=) (sim_printer b0 M) (fill fp c n) (fill bp c n)"
    and "rel_sum (=) (sim_printer b0 M) (putc fp c) (putc bp c)"
proof -
  from assms have f: "ops_p fp = FileOps" and b: "ops_p bp = BufOps"
    "unat (max_p bp) \<le> length (buf_p bp)"
    by (auto simp: sim_printer_def bounded_def)
  show "rel_sum (=) (sim_printer b0 M) (copy fp s) (copy bp s)"
    "rel_sum (=) (sim_printer b0 M) (fill fp c n) (fill bp c n)"
    "rel_sum (=) (sim_printer b0 M) (putc fp c) (putc bp c)"
    by (simp_all add: file_ops_written [OF f] copy_buf_written [OF b] fill_buf_written [OF b]
        putc_buf_written [OF b] written_sim [OF assms])
qed

lemma opt_fill_sim:
  assumes "sim_printer b0 M fp bp"
  shows "rel_sum (=) (sim_printer b0 M) (if C then fill fp c n else Inr fp)
           (if C then fill bp c n else Inr bp)"
  using assms by (simp add: sink_sim)

lemma sim_simps:
  assumes "sim b0 M fc bc"
  shows "args bc = args fc" "stored bc = stored fc" "sim_printer b0 M (printer fc) (printer bc)"
    "total_p (printer bc) = total_p (printer fc)"
    "sim b0 M (fc\<lparr>args := as\<rparr>) (bc\<lparr>args := as\<rparr>)"
    "sim_printer b0 M p p' \<Longrightarrow> sim b0 M (fc\<lparr>printer := p\<rparr>) (bc\<lparr>printer := p'\<rparr>)"
  using assms by (simp_all add: sim_def sim_printer_def)

lemma print_converted_string_sim:
  assumes "sim b0 M fc bc"
  shows "rel_sum (=) (rel_prod (=) (sim b0 M))
           (print_converted_string k s fc) (print_converted_string k s bc)"
  unfolding print_converted_string_def Let_def
  apply (rule bindE_rel [where R = "sim_printer b0 M"])
   apply (rule opt_fill_sim [OF sim_simps(3) [OF assms]])
  apply (rule bindE_rel [where R = "sim_printer b0 M"])
   apply (erule sink_sim(1))
  apply (rule bindE_rel [where R = "sim_printer b0 M"])
   apply (erule opt_fill_sim)
  apply (simp add: sim_simps(6) [OF assms])
  done

lemma print_char_conversion_sim:
  assumes "sim b0 M fc bc"
  shows "rel_sum (=) (rel_prod (=) (sim b0 M))
           (print_char_conversion k fc) (print_char_conversion k bc)"
  unfolding print_char_conversion_def sim_simps(1) [OF assms]
  using assms
  by (auto intro!: bindE_same print_converted_string_sim sim_simps(5))

lemma print_string_conversion_sim:
  assumes "sim b0 M fc bc"
  shows "rel_sum (=) (rel_prod (=) (sim b0 M))
           (print_string_conversion k fc) (print_string_conversion k bc)"
  unfolding print_string_conversion_def sim_simps(1) [OF assms] Let_def
  using assms
  by (auto intro!: bindE_same print_converted_string_sim sim_simps(5))

lemma print_diouxXp_conversions_sim:
  assumes "sim b0 M fc bc"
  shows "rel_sum (=) (rel_prod (=) (sim b0 M))
           (print_diouxXp_conversions k fc) (print_diouxXp_conversions k bc)"
  unfolding print_diouxXp_conversions_def sim_simps(1) [OF assms] Let_def
  using assms
  by (auto intro!: bindE_same print_converted_string_sim sim_simps(5))

lemma store_character_count_sim:
  assumes "sim b0 M fc bc"
  shows "rel_sum (=) (rel_prod (=) (sim b0 M))
           (store_character_count k fc) (store_character_count k bc)"
  unfolding store_character_count_def sim_simps(1,4) [OF assms] Let_def
  using assms
  by (auto intro!: bindE_same simp: sim_def)

lemma print_conversion_sim:
  assumes "sim b0 M fc bc"
  shows "rel_sum (=) (rel_prod (=) (sim b0 M))
           (print_conversion k fc) (print_conversion k bc)"
  unfolding print_conversion_def
  using assms
  by (simp add: print_char_conversion_sim print_string_conversion_sim
      print_diouxXp_conversions_sim store_character_count_sim)


lemma bindE_printer_rel:
  assumes "rel_sum (=) (sim_printer b0 M) x y"
    and "\<And>p p'. sim_printer b0 M p p' \<Longrightarrow> rel_sum (=) S (f p) (g p')"
  shows "rel_sum (=) S (bindE x f) (bindE y g)"
  using assms by (rule bindE_rel)

lemma bindE_ctx_rel:
  assumes "rel_sum (=) (rel_prod (=) (sim b0 M)) x y"
    and "\<And>ok c c'. sim b0 M c c' \<Longrightarrow> rel_sum (=) S (f (ok, c)) (g (ok, c'))"
  shows "rel_sum (=) S (bindE x f) (bindE y g)"
  using assms(1)
  by (rule bindE_rel) (use assms(2) in auto)

lemma loop_body_sim:
  assumes "sim b0 M fc bc"
  shows "rel_sum (=) (rel_prod (=) (sim b0 M))
           (loop_body m prev_fmt curr_fmt fc) (loop_body m prev_fmt curr_fmt bc)"
proof -
  note sp = sim_simps(3) [OF assms]
  have flush: "rel_sum (=) (sim_printer b0 M)
     (if prev_fmt \<noteq> curr_fmt
      then bindE (slice m prev_fmt (size_diff curr_fmt prev_fmt)) (copy (printer fc))
      else Inr (printer fc))
     (if prev_fmt \<noteq> curr_fmt
      then bindE (slice m prev_fmt (size_diff curr_fmt prev_fmt)) (copy (printer bc))
      else Inr (printer bc))"
    using sp by (auto intro!: bindE_same sink_sim)
  have rest: "rel_sum (=) (rel_prod (=) (sim b0 M))
     (bindE (rd m (curr_fmt + 1)) (\<lambda>ch.
       if ch = CHR ''%''
       then bindE (putc p CHR ''%'') (\<lambda>q. Inr (curr_fmt + 1 + 1, fc\<lparr>printer := q\<rparr>))
       else
         bindE (parse_conversion m (curr_fmt + 1) (args fc)) (\<lambda>(nxt, conv, as).
         bindE (print_conversion conv (fc\<lparr>printer := p, args := as\<rparr>)) (\<lambda>(ok, c).
           if \<not> ok
           then bindE (slice m curr_fmt (size_diff nxt curr_fmt)) (\<lambda>s.
                bindE (copy (printer c) s) (\<lambda>q. Inr (nxt, c\<lparr>printer := q\<rparr>)))
           else Inr (nxt, c)))))
     (bindE (rd m (curr_fmt + 1)) (\<lambda>ch.
       if ch = CHR ''%''
       then bindE (putc p' CHR ''%'') (\<lambda>q. Inr (curr_fmt + 1 + 1, bc\<lparr>printer := q\<rparr>))
       else
         bindE (parse_conversion m (curr_fmt + 1) (args fc)) (\<lambda>(nxt, conv, as).
         bindE (print_conversion conv (bc\<lparr>printer := p', args := as\<rparr>)) (\<lambda>(ok, c).
           if \<not> ok
           then bindE (slice m curr_fmt (size_diff nxt curr_fmt)) (\<lambda>s.
                bindE (copy (printer c) s) (\<lambda>q. Inr (nxt, c\<lparr>printer := q\<rparr>)))
           else Inr (nxt, c)))))"
    if pp: "sim_printer b0 M p p'" for p p'
  proof (rule bindE_same, goal_cases)
    case (1 ch)
    show ?case
    proof (cases "ch = CHR ''%''")
      case True
      have "rel_sum (=) (rel_prod (=) (sim b0 M))
        (bindE (putc p CHR ''%'') (\<lambda>q. Inr (curr_fmt + 1 + 1, fc\<lparr>printer := q\<rparr>)))
        (bindE (putc p' CHR ''%'') (\<lambda>q. Inr (curr_fmt + 1 + 1, bc\<lparr>printer := q\<rparr>)))"
        by (rule bindE_printer_rel [OF sink_sim(3) [OF pp]])
           (simp add: sim_simps(6) [OF assms])
      with True show ?thesis by simp
    next
      case False
      have "rel_sum (=) (rel_prod (=) (sim b0 M))
         (bindE (parse_conversion m (curr_fmt + 1) (args fc)) (\<lambda>(nxt, conv, as).
         bindE (print_conversion conv (fc\<lparr>printer := p, args := as\<rparr>)) (\<lambda>(ok, c).
           if \<not> ok
           then bindE (slice m curr_fmt (size_diff nxt curr_fmt)) (\<lambda>s.
                bindE (copy (printer c) s) (\<lambda>q. Inr (nxt, c\<lparr>printer := q\<rparr>)))
           else Inr (nxt, c))))
         (bindE (parse_conversion m (curr_fmt + 1) (args fc)) (\<lambda>(nxt, conv, as).
         bindE (print_conversion conv (bc\<lparr>printer := p', args := as\<rparr>)) (\<lambda>(ok, c).
           if \<not> ok
           then bindE (slice m curr_fmt (size_diff nxt curr_fmt)) (\<lambda>s.
                bindE (copy (printer c) s) (\<lambda>q. Inr (nxt, c\<lparr>printer := q\<rparr>)))
           else Inr (nxt, c))))"
      proof (rule bindE_same, goal_cases)
        case (1 r)
        obtain nxt conv as where r: "r = (nxt, conv, as)" by (cases r)
        have s1: "sim b0 M (fc\<lparr>printer := p, args := as\<rparr>) (bc\<lparr>printer := p', args := as\<rparr>)"
          using assms pp by (simp add: sim_def)
        have "rel_sum (=) (rel_prod (=) (sim b0 M))
          (bindE (print_conversion conv (fc\<lparr>printer := p, args := as\<rparr>)) (\<lambda>(ok, c).
           if \<not> ok
           then bindE (slice m curr_fmt (size_diff nxt curr_fmt)) (\<lambda>s.
                bindE (copy (printer c) s) (\<lambda>q. Inr (nxt, c\<lparr>printer := q\<rparr>)))
           else Inr (nxt, c)))
          (bindE (print_conversion conv (bc\<lparr>printer := p', args := as\<rparr>)) (\<lambda>(ok, c).
           if \<not> ok
           then bindE (slice m curr_fmt (size_diff nxt curr_fmt)) (\<lambda>s.
                bindE (copy (printer c) s) (\<lambda>q. Inr (nxt, c\<lparr>printer := q\<rparr>)))
           else Inr (nxt, c)))"
        proof (rule bindE_ctx_rel [OF print_conversion_sim [OF s1]], goal_cases)
          case (1 ok c c')
          have "rel_sum (=) (rel_prod (=) (sim b0 M))
             (bindE (slice m curr_fmt (size_diff nxt curr_fmt)) (\<lambda>s.
                bindE (copy (printer c) s) (\<lambda>q. Inr (nxt, c\<lparr>printer := q\<rparr>))))
             (bindE (slice m curr_fmt (size_diff nxt curr_fmt)) (\<lambda>s.
                bindE (copy (printer c') s) (\<lambda>q. Inr (nxt, c'\<lparr>printer := q\<rparr>))))"
            by (rule bindE_same,
                rule bindE_printer_rel [OF sink_sim(1) [OF sim_simps(3) [OF 1]]])
               (simp add: sim_simps(6) [OF 1])
          with 1 show ?case by simp
        qed
        then show ?case by (simp add: r)
      qed
      with False show ?thesis by simp
    qed
  qed
  show ?thesis
    unfolding loop_body_unfold sim_simps(1) [OF assms]
    by (rule bindE_printer_rel [OF flush]) (rule rest)
qed


lemma printf_loop_sim:
  "sim b0 M fc bc \<Longrightarrow>
   rel_sum (=) (sim b0 M) (printf_loop m term_fmt prev_fmt fc) (printf_loop m term_fmt prev_fmt bc)"
proof (induction m term_fmt prev_fmt fc arbitrary: bc rule: printf_loop.induct)
  case (1 m term_fmt prev_fmt c)
  note s = \<open>sim b0 M c bc\<close>
  show ?case
  proof (cases "memchr m prev_fmt CHR ''%'' (size_diff term_fmt prev_fmt)")
    case (Inl e)
    then show ?thesis
      by (subst (1 2) printf_loop.simps) simp
  next
    case (Inr r)
    show ?thesis
    proof (cases r)
      case None
      have "rel_sum (=) (sim b0 M)
         (bindE (slice m prev_fmt (size_diff term_fmt prev_fmt)) (\<lambda>s.
            bindE (copy (printer c) s) (\<lambda>p. Inr (c\<lparr>printer := p\<rparr>))))
         (bindE (slice m prev_fmt (size_diff term_fmt prev_fmt)) (\<lambda>s.
            bindE (copy (printer bc) s) (\<lambda>p. Inr (bc\<lparr>printer := p\<rparr>))))"
        by (rule bindE_same, rule bindE_printer_rel [OF sink_sim(1) [OF sim_simps(3) [OF s]]])
           (simp add: sim_simps(6) [OF s])
      with Inr None s show ?thesis
        by (subst (1 2) printf_loop.simps) simp
    next
      case (Some curr_fmt)
      note lb = loop_body_sim [OF s, of m prev_fmt curr_fmt]
      show ?thesis
      proof (cases "loop_body m prev_fmt curr_fmt c")
        case l: (Inl e)
        with lb have "loop_body m prev_fmt curr_fmt bc = Inl e"
          by (cases "loop_body m prev_fmt curr_fmt bc") simp_all
        with l Inr Some show ?thesis
          by (subst (1 2) printf_loop.simps) simp
      next
        case r: (Inr x)
        obtain nxt c' where x: "x = (nxt, c')" by (cases x)
        from lb r x obtain bc' where
          b: "loop_body m prev_fmt curr_fmt bc = Inr (nxt, bc')" and s': "sim b0 M c' bc'"
          by (cases "loop_body m prev_fmt curr_fmt bc") auto
        from "1.IH" [OF Inr Some r x [symmetric] s']
        have "rel_sum (=) (sim b0 M) (printf_loop m term_fmt nxt c') (printf_loop m term_fmt nxt bc')" .
        with Inr Some r x b show ?thesis
          by (subst (1 2) printf_loop.simps) simp
      qed
    qed
  qed
qed

lemma printf_core_sim:
  assumes "sim_printer b0 M fp bp"
  shows "rel_sum (=) (sim b0 M) (printf_core fp m as) (printf_core bp m as)"
  unfolding printf_core_def
  by (rule bindE_same, rule printf_loop_sim) (use assms in \<open>simp add: sim_def\<close>)


lemma capacity_room:
  fixes mx :: "64 word"
  assumes "max 1 (unat mx) \<le> length b"
  shows "unat (if mx > 0 then mx - 1 else 0) = unat mx - 1"
    and "unat mx - 1 + 1 \<le> length b"
proof -
  show "unat (if mx > 0 then mx - 1 else 0) = unat mx - 1"
  proof (cases "mx > 0")
    case True
    then have "1 \<le> mx" by (simp add: word_le_nat_alt word_less_nat_alt)
    then have "unat (mx - 1) = unat mx - 1" by (simp add: unat_sub)
    with True show ?thesis by simp
  next
    case False
    then have "mx = 0" by (simp add: word_gt_0)
    then show ?thesis by simp
  qed
  from assms have "1 \<le> length b" "unat mx \<le> length b" by simp_all
  then show "unat mx - 1 + 1 \<le> length b" by arith
qed

lemma ucast_of_nat_int: "ucast (word_of_nat n :: 64 word) = (word_of_nat n :: 32 word)"
  by (rule bit_word_eqI) (auto simp: bit_simps)

lemma snprintf_against_stream:
  assumes run: "format s as = Inr out" and small: "length out < 2 ^ 64"
    and room: "max 1 (unat mx) \<le> length b"
  shows "format_to_buffer b mx s as =
           Inr (sint (word_of_nat (length out) :: 32 word),
                take (min (length out) (unat mx - 1)) out @ [NUL]
                  @ drop (min (length out) (unat mx - 1) + 1) b)"
proof -
  let ?fp = "\<lparr>file_p = [], buf_p = [], max_p = 0, total_p = 0, ops_p = FileOps\<rparr>"
  define M :: "64 word" where "M = (if mx > 0 then mx - 1 else 0)"
  let ?bp = "\<lparr>file_p = [], buf_p = b, max_p = M, total_p = 0, ops_p = BufOps\<rparr>"
  note cr = capacity_room [OF room, folded M_def]
  from cr have "bounded b ?bp []"
    by (simp add: bounded_def)
  then have sp: "sim_printer b M ?fp ?bp"
    by (simp add: sim_printer_def)
  from run obtain fc where fc: "printf_core ?fp (cstr s) as = Inr fc"
    and out: "out = file_p (printer fc)"
    by (auto simp: format_def simple_printf_def bindE_Inr_iff)
  from printf_core_sim [OF sp, of "cstr s" as] fc obtain bc where
    bc: "printf_core ?bp (cstr s) as = Inr bc" and s: "sim b M fc bc"
    by (cases "printf_core ?bp (cstr s) as") auto
  define p where "p = printer bc"
  define L where "L = length out"
  define C where "C = unat (max_p p)"
  define n where "n = min L C"
  from s out have bd: "bounded b p out" and mp: "max_p p = M"
    by (simp_all add: sim_def sim_printer_def p_def)
  from mp cr have C: "C = unat mx - 1" and rm: "C + 1 \<le> length b"
    by (simp_all add: C_def)
  from bd have tot: "total_p p = word_of_nat L" and len: "length (buf_p p) = length b"
    by (simp_all add: bounded_def L_def)
  from bd small have buf: "buf_p p = take C out @ drop n b"
    by (simp add: bounded_def L_def C_def n_def)
  from small have ut: "unat (total_p p) = L"
    by (simp add: tot unat_of_nat L_def)
  have e: "unat (if total_p p < max_p p then total_p p else max_p p) = n"
    by (auto simp: word_less_nat_alt ut n_def C_def)
  have n: "n \<le> C" "n \<le> L" "length (take C out) = n"
    by (simp_all add: n_def L_def min.commute)
  have tk: "take C out = take n out"
    by (cases "L \<le> C") (simp_all add: n_def L_def min_def)
  from n rm have fits: "n + length [NUL] \<le> length (buf_p p)"
    by (simp add: len)
  have st: "store_bytes (buf_p p) n [NUL] = Inr (take n out @ [NUL] @ drop (n + 1) b)"
    unfolding store_bytes_ok [OF fits]
    using n by (simp add: buf tk [symmetric])
  have cnt: "sint (ucast (total_p p) :: 32 word) = sint (word_of_nat L :: 32 word)"
    by (simp add: tot ucast_of_nat_int)
  show ?thesis
    unfolding format_to_buffer_def simple_snprintf_def Let_def M_def [symmetric] bc bindE_Inr
      p_def [symmetric] e st cnt
    by (simp add: n_def L_def C)
qed

text \<open>Two \<^verbatim>\<open>%s\<close> conversions of the same string, for any string that fits an
  \<^verbatim>\<open>int\<close>.\<close>

lemma index_of_terminator:
  "ch \<notin> set t \<Longrightarrow> index_of ch (t @ ch # r) = Some (length t)"
  by (induction t) auto

lemma sint_of_nat_small: "n < 2 ^ 31 \<Longrightarrow> sint (word_of_nat n :: 32 word) = int n"
  by (simp add: signed_of_nat signed_take_bit_int_eq_self)

lemma print_string_plain:
  assumes k: "length_mod k = kLengthDefault" "\<not> explicit_prec k" "sint (width k) = 0"
    and t: "NUL \<notin> set t" "length t < 2 ^ 31"
    and c: "ops_p (printer c) = FileOps" "args c = AStr (t @ [NUL]) # rest"
  shows "print_string_conversion k c =
           Inr (True, c\<lparr>args := rest, printer := printer_file_copy (printer c) t\<rparr>)"
proof -
  have "take SIZE_MAX (t @ [NUL]) = t @ [NUL]"
    using t(2) by (simp add: SIZE_MAX_def)
  then have m: "memchr (t @ [NUL]) 0 NUL SIZE_MAX = Inr (Some (length t))"
    using index_of_terminator [OF t(1), of "[]"] by (simp add: memchr_def)
  show ?thesis
    using k t(2) c
    by (simp add: print_string_conversion_def va_arg_str_def m Let_def sint_of_nat_small
        print_converted_string_def copy_def)
qed

lemma string_spec_parse:
  assumes "rd m fmt = Inr CHR ''s''" and "rd m (fmt + 1) = Inr ch"
  shows "\<exists>k. parse_conversion m fmt as = Inr (fmt + 1, k, as)
           \<and> type k = CHR ''s'' \<and> length_mod k = kLengthDefault \<and> \<not> explicit_prec k
           \<and> sint (width k) = 0"
proof -
  have f: "parse_flags m fmt conv_init = Inr (fmt, conv_init)"
    using assms(1) by (simp add: parse_flags_def) (subst parse_flags_loop.simps, simp add: conv_init_def)
  have d: "parse_digits m fmt CHR ''s'' 0 = Inr (fmt, 0)"
    by (subst parse_digits.simps) (simp add: isdigit_def)
  have w: "\<And>k. parse_width m fmt k as = Inr (fmt, k\<lparr>explicit_width := False, width := 0\<rparr>, as)"
    using assms(1) by (simp add: parse_width_def d isdigit_def)
  have p: "\<And>k. parse_prec m fmt k as = Inr (fmt, k\<lparr>prec := 0\<rparr>, as)"
    using assms(1) by (simp add: parse_prec_def)
  have l: "\<And>k. parse_length m fmt k = Inr (fmt, k\<lparr>length_mod := kLengthDefault\<rparr>)"
    using assms by (simp add: parse_length_def Let_def PACK_CHAR_def)
  have "parse_conversion m fmt as =
     Inr (fmt + 1, conv_init\<lparr>explicit_width := False, width := 0, prec := 0,
            length_mod := kLengthDefault, type := CHR ''s''\<rparr>, as)"
    using assms(1) by (simp add: parse_conversion_def f w p l)
  then show ?thesis
    by (simp add: conv_init_def)
qed


lemma format_two_strings:
  assumes t: "NUL \<notin> set t" "length t < 2 ^ 31"
  shows "format ''%s%s'' [AStr (t @ [NUL]), AStr (t @ [NUL])] = Inr (t @ t)"
proof -
  let ?m = "cstr ''%s%s''"
  have m: "?m = [CHR ''%'', CHR ''s'', CHR ''%'', CHR ''s'', NUL]"
    by (simp add: cstr_def)
  have len: "strlen ?m = Inr 4"
    by (simp add: strlen_def m NUL_def)
  have r: "rd ?m 1 = Inr CHR ''s''" "rd ?m 2 = Inr CHR ''%''" "rd ?m 3 = Inr CHR ''s''"
    "rd ?m 4 = Inr NUL"
    by (simp_all add: rd_def m)
  have step: "loop_body ?m i i c =
      Inr (j, c\<lparr>args := rest, printer := printer_file_copy (printer c) t\<rparr>)"
    if "rd ?m i1 = Inr CHR ''s''" "rd ?m j = Inr ch" "i1 = i + 1" "j = i + 2"
      "ops_p (printer c) = FileOps" "args c = AStr (t @ [NUL]) # rest"
    for i i1 j c rest ch
  proof -
    from string_spec_parse [of ?m i1 ch "args c"] that(1,2,3,4) obtain k where
      pc: "parse_conversion ?m i1 (args c) = Inr (j, k, args c)"
      and k: "type k = CHR ''s''" "length_mod k = kLengthDefault" "\<not> explicit_prec k"
        "sint (width k) = 0"
      by (auto simp: add.commute)
    have ps: "print_conversion k (c\<lparr>printer := printer c, args := args c\<rparr>) =
        Inr (True, c\<lparr>args := rest, printer := printer_file_copy (printer c) t\<rparr>)"
      using print_string_plain [OF k(2,3,4) t that(5,6)] k(1)
      by (simp add: print_conversion_def)
    show ?thesis
      unfolding loop_body_unfold that(3) [symmetric]
      using that(1) by (simp add: pc ps [simplified])
  qed
  let ?a = "[AStr (t @ [NUL]), AStr (t @ [NUL])]"
  let ?p0 = "\<lparr>file_p = [], buf_p = [], max_p = 0, total_p = 0, ops_p = FileOps\<rparr>"
  let ?c0 = "\<lparr>args = ?a, printer = ?p0, stored = []\<rparr>"
  let ?c1 = "\<lparr>args = [AStr (t @ [NUL])], printer = printer_file_copy ?p0 t, stored = []\<rparr>"
  let ?c2 = "\<lparr>args = [], printer = printer_file_copy (printer_file_copy ?p0 t) t,
              stored = []\<rparr>"
  have s1: "loop_body ?m 0 0 ?c0 = Inr (2, ?c1)"
    using step [OF r(1) r(2), where i = 0 and c = ?c0 and rest = "[AStr (t @ [NUL])]"]
    by simp
  have s2: "loop_body ?m 2 2 ?c1 = Inr (4, ?c2)"
    using step [OF r(3) r(4), where i = 2 and c = ?c1 and rest = "[]"]
    by (simp add: printer_file_copy_def)
  have m0: "memchr ?m 0 CHR ''%'' (size_diff 4 0) = Inr (Some 0)"
    by (simp add: memchr_def size_diff_def m)
  have m2: "memchr ?m 2 CHR ''%'' (size_diff 4 2) = Inr (Some 2)"
    by (simp add: memchr_def size_diff_def m)
  have m4: "memchr ?m 4 CHR ''%'' (size_diff 4 4) = Inr None"
    by (simp add: memchr_def size_diff_def m)
  have l4: "printf_loop ?m 4 4 ?c2 = Inr ?c2"
    by (subst printf_loop.simps) (simp add: m4)
  have l2: "printf_loop ?m 4 2 ?c1 = Inr ?c2"
    by (subst printf_loop.simps) (simp add: m2 s2 l4)
  have l0: "printf_loop ?m 4 0 ?c0 = Inr ?c2"
    by (subst printf_loop.simps) (simp add: m0 s1 l2)
  show ?thesis
    by (simp add: format_def simple_printf_def printf_core_def len l0 printer_file_copy_def)
qed

lemma snprintf_truncation_example:
  "format_to_buffer ''?????'' 5 ''%d'' [AInt 123456] = Inr (6, ''1234'' @ [NUL])"
  by code_simp

lemma snprintf_zero_capacity_example:
  "format_to_buffer ''abc'' 0 ''x'' [] = Inr (1, NUL # ''bc'')"
  by code_simp

text \<open>
  C4, as stated: for every call the returned count is the total that would have been
  produced without truncation. The count is returned as an \<^verbatim>\<open>int\<close>, so it fails from
  \<open>2 ^ 31\<close> characters on: two strings of \<open>2 ^ 30\<close> characters produce \<open>2 ^ 31\<close> characters
  on a stream, and the same call into a buffer of five bytes returns \<open>- 2 ^ 31\<close>.
\<close>

theorem snprintf_count_narrowed:
  "format ''%s%s'' [AStr (replicate (2 ^ 30) CHR ''a'' @ [NUL]),
                    AStr (replicate (2 ^ 30) CHR ''a'' @ [NUL])]
     = Inr (replicate (2 ^ 31) CHR ''a'')
   \<and> format_to_buffer ''?????'' 5 ''%s%s''
         [AStr (replicate (2 ^ 30) CHR ''a'' @ [NUL]),
          AStr (replicate (2 ^ 30) CHR ''a'' @ [NUL])]
     = Inr (- 2147483648, ''aaaa'' @ [NUL])"
proof -
  let ?t = "replicate (2 ^ 30) CHR ''a''"
  let ?as = "[AStr (?t @ [NUL]), AStr (?t @ [NUL])]"
  have t: "NUL \<notin> set ?t" "length ?t < 2 ^ 31"
    by (simp_all add: NUL_def)
  have tt: "?t @ ?t = replicate (2 ^ 31) CHR ''a''"
    by (simp flip: replicate_add)
  have run: "format ''%s%s'' ?as = Inr (replicate (2 ^ 31) CHR ''a'')"
    using format_two_strings [OF t] by (simp only: tt)
  have small: "length (replicate (2 ^ 31) CHR ''a'') < 2 ^ 64"
    by simp
  have room: "max 1 (unat (5 :: 64 word)) \<le> length ''?????''"
    by simp
  have four: "replicate 4 CHR ''a'' = ''aaaa''"
    by (simp add: eval_nat_numeral)
  have "format_to_buffer ''?????'' 5 ''%s%s'' ?as = Inr (- 2147483648, ''aaaa'' @ [NUL])"
    unfolding snprintf_against_stream [OF run small room]
    by (simp add: four)
  with run show ?thesis by simp
qed

text \<open>
  C4, amended. Take a call whose output on a stream is \<open>out\<close>, of fewer than \<open>2 ^ 31\<close>
  characters, and an array of at least \<open>capacity\<close> bytes and at least one. The same call
  into that array with that capacity returns the length of \<open>out\<close>; it leaves in the array
  the first \<open>capacity - 1\<close> characters of \<open>out\<close> (all of \<open>out\<close> when it is shorter, none
  when the capacity is 0 or 1), then the terminating sentinel, then the bytes that the
  array had there before.
\<close>

theorem snprintf_truncates_and_counts:
  assumes "format s as = Inr out" and "length out < 2 ^ 31"
    and "max 1 (unat mx) \<le> length b"
  shows "format_to_buffer b mx s as =
           Inr (int (length out),
                take (min (length out) (unat mx - 1)) out @ [NUL]
                  @ drop (min (length out) (unat mx - 1) + 1) b)"
proof -
  from assms(2) have small: "length out < 2 ^ 64"
    by (rule less_trans) simp
  from assms(2) have "sint (word_of_nat (length out) :: 32 word) = int (length out)"
    by (rule sint_of_nat_small)
  with snprintf_against_stream [OF assms(1) small assms(3)] show ?thesis
    by simp
qed

theorem snprintf_truncates_and_counts_witness:
  "format ''%d'' [AInt 123456] = Inr ''123456''
   \<and> length ''123456'' < 2 ^ 31
   \<and> max 1 (unat (5 :: 64 word)) \<le> length ''?????''
   \<and> format_to_buffer ''?????'' 5 ''%d'' [AInt 123456] = Inr (6, ''1234'' @ [NUL])"
proof -
  have h1: "format ''%d'' [AInt 123456] = Inr ''123456''"
    by code_simp
  have h2: "length ''123456'' < 2 ^ 31"
    by simp
  have h3: "max 1 (unat (5 :: 64 word)) \<le> length ''?????''"
    by simp
  from snprintf_truncates_and_counts [OF h1 h2 h3]
  have "format_to_buffer ''?????'' 5 ''%d'' [AInt 123456] = Inr (6, ''1234'' @ [NUL])"
    by simp
  with h1 h2 h3 show ?thesis by simp
qed

section \<open>Order of the argument fetches\<close>

lemma parse_flags_loop_stop:
  "rd m fmt = Inr ch \<Longrightarrow> ch \<notin> {CHR ''0'', CHR ''-'', CHR ''+'', CHR ''#'', CHR '' ''} \<Longrightarrow>
   parse_flags_loop m fmt cs = Inr (fmt, cs)"
  by (subst parse_flags_loop.simps) simp

lemma parse_flags_none:
  "rd m fmt = Inr ch \<Longrightarrow> ch \<notin> {CHR ''0'', CHR ''-'', CHR ''+'', CHR ''#'', CHR '' ''} \<Longrightarrow>
   parse_flags m fmt conv = Inr (fmt, conv)"
  by (simp add: parse_flags_def parse_flags_loop_stop)

lemma print_converted_string_ok:
  "bindE (print_converted_string k s c) (\<lambda>(ok, c). if \<not> ok then X c else Y c) =
   bindE (print_converted_string k s c) (\<lambda>(ok, c). Y c)"
  by (cases "print_converted_string k s c")
     (auto simp: print_converted_string_def bindE_Inr_iff Let_def)

text \<open>The descriptor that \<^verbatim>\<open>%*.*d\<close> yields for a width argument \<open>w\<close> and a precision
  argument \<open>p\<close>.\<close>

definition star_conv :: "32 word \<Rightarrow> 32 word \<Rightarrow> conv" where
  "star_conv w p =
     conv_init\<lparr>explicit_width := True, left_justify := sint w < 0,
       width := ucast (if sint w < 0 then - w else w),
       explicit_prec := True, prec := ucast (if sint p < 0 then 0 else p),
       type := CHR ''d''\<rparr>"

text \<open>
  C9. For \<^verbatim>\<open>%*.*d\<close> with the arguments \<open>w\<close>, \<open>p\<close>, \<open>v\<close> (and any further ones), whatever
  their values: the loop body renders the value \<open>v\<close>, the third argument, under the
  descriptor whose width comes from \<open>w\<close>, the first, and whose precision comes from \<open>p\<close>,
  the second; it leaves the further arguments and returns the pointer after the specifier.
\<close>

theorem star_arguments_in_text_order:
  "loop_body (cstr ''%*.*d'') 0 0 (c\<lparr>args := AInt w # AInt p # AInt v # rest\<rparr>) =
     bindE (convert_integer_to_string (scast v) (diouxXp_setup (star_conv w p))
              (replicate (nat INT_BUF_SIZE) NUL)) (\<lambda>(idx, k, b).
     bindE (print_converted_string k (take (nat (INT_BUF_SIZE - idx - 1)) (drop (nat idx) b))
              (c\<lparr>args := rest\<rparr>)) (\<lambda>(ok, c'). Inr (5, c')))"
proof -
  let ?m = "cstr ''%*.*d''"
  have m: "?m = [CHR ''%'', CHR ''*'', CHR ''.'', CHR ''*'', CHR ''d'', NUL]"
    by (simp add: cstr_def)
  have r1: "rd ?m (Suc 0) = Inr CHR ''*''" and r4: "rd ?m 4 = Inr CHR ''d''"
    by (simp_all add: rd_def m)
  have f1: "parse_flags ?m (Suc 0) conv_init = Inr (Suc 0, conv_init)"
    by (rule parse_flags_none [OF r1]) simp
  have f2: "parse_width ?m (Suc 0) conv_init (AInt w # AInt p # AInt v # rest) =
     Inr (2, conv_init\<lparr>explicit_width := True, left_justify := sint w < 0,
        width := ucast (if sint w < 0 then - w else w)\<rparr>, AInt p # AInt v # rest)"
    by (simp add: parse_width_def rd_def m va_arg_int_def Let_def conv_init_def)
  have f3: "\<And>k. parse_prec ?m 2 k (AInt p # AInt v # rest) =
     Inr (4, k\<lparr>explicit_prec := True, prec := ucast (if sint p < 0 then 0 else p)\<rparr>, AInt v # rest)"
    by (simp add: parse_prec_def rd_def m va_arg_int_def Let_def)
  have f4: "\<And>k. parse_length ?m 4 k = Inr (4, k\<lparr>length_mod := kLengthDefault\<rparr>)"
    by (simp add: parse_length_def rd_def m Let_def PACK_CHAR_def NUL_def)
  have k: "conv_init\<lparr>explicit_width := True, left_justify := sint w < 0,
        width := ucast (if sint w < 0 then - w else w),
        explicit_prec := True, prec := ucast (if sint p < 0 then 0 else p),
        length_mod := kLengthDefault, type := CHR ''d''\<rparr> = star_conv w p"
    by (simp add: star_conv_def conv_init_def)
  have ty: "type (star_conv w p) = CHR ''d''"
    by (simp add: star_conv_def)
  have s: "is_signed (diouxXp_setup (star_conv w p))"
    "length_mod (diouxXp_setup (star_conv w p)) = kLengthDefault"
    by (simp_all add: diouxXp_setup_def star_conv_def conv_init_def Let_def)
  have parse: "parse_conversion ?m (Suc 0) (AInt w # AInt p # AInt v # rest) =
     Inr (5, star_conv w p, AInt v # rest)"
    using r4 by (simp add: parse_conversion_def f1 f2 f3 f4 k)
  have body: "loop_body ?m 0 0 (c\<lparr>args := AInt w # AInt p # AInt v # rest\<rparr>) =
     bindE (print_conversion (star_conv w p) (c\<lparr>args := AInt v # rest\<rparr>)) (\<lambda>(ok, c).
       if \<not> ok
       then bindE (slice ?m 0 (size_diff 5 0)) (\<lambda>s.
            bindE (copy (printer c) s) (\<lambda>p. Inr (5, c\<lparr>printer := p\<rparr>)))
       else Inr (5, c))"
    using r1 by (simp add: loop_body_def parse Let_def)
  show ?thesis
  proof (cases "convert_integer_to_string (scast v) (diouxXp_setup (star_conv w p))
                  (replicate (nat INT_BUF_SIZE) NUL)")
    case (Inl e)
    then show ?thesis
      unfolding body
      by (simp add: print_conversion_def print_diouxXp_conversions_def s
          get_signed_integer_def va_arg_int_def Let_def ty)
  next
    case (Inr r)
    then show ?thesis
      unfolding body
      by (cases r)
         (simp add: print_conversion_def print_diouxXp_conversions_def s
          get_signed_integer_def va_arg_int_def Let_def print_converted_string_ok ty)
  qed
qed

end
